theory Spec2Isabelle
  imports Complex_Main
begin

section \<open>The order book of \<^verbatim>\<open>onymos.py\<close>\<close>

text \<open>
  The module keeps one global list \<^verbatim>\<open>orderBooks\<close> of \<^verbatim>\<open>MAX_TICKERS\<close> books. A book
  has two preallocated lists of \<^verbatim>\<open>MAX_ORDERS_PER_SIDE\<close> slots (\<^verbatim>\<open>None\<close> or an
  \<^verbatim>\<open>Order\<close>) and one insertion counter per side. The lists are never resized.

  Every book, every slot list and every \<^verbatim>\<open>Order\<close> is an object of its own (the
  books come from a list comprehension, each \<^verbatim>\<open>Order\<close> is built by the one
  \<^verbatim>\<open>addOrder\<close> call that stores it), so no two slots alias and the global state is
  modelled by value: a list of records, passed in and returned.

  Tickers, quantities and order types are Python integers (\<open>int\<close>).
\<close>

subsection \<open>Prices\<close>

text \<open>
  Prices are Python floats. The code stores them, prints them and compares them with
  \<^verbatim>\<open><\<close> and \<^verbatim>\<open>>=\<close>, and does no arithmetic on them, so a finite float is modelled
  by the real number it denotes; the two infinities and NaN are values of their own.
  The comparisons are those of Python: every comparison with NaN is false, and the
  other values are ordered with \<open>NegInf\<close> below and \<open>PosInf\<close> above every finite one.
\<close>

datatype pyfloat = Fin real | PosInf | NegInf | NaN

fun float_lt :: "pyfloat \<Rightarrow> pyfloat \<Rightarrow> bool" where
  "float_lt (Fin x) (Fin y) = (x < y)"
| "float_lt (Fin x) PosInf = True"
| "float_lt NegInf (Fin y) = True"
| "float_lt NegInf PosInf = True"
| "float_lt a b = False"

text \<open>
  \<^verbatim>\<open>a >= b\<close>: neither is NaN, and \<open>a\<close> is not lower than \<open>b\<close>.
\<close>

definition float_ge :: "pyfloat \<Rightarrow> pyfloat \<Rightarrow> bool" where
  "float_ge a b \<longleftrightarrow> a \<noteq> NaN \<and> b \<noteq> NaN \<and> \<not> float_lt a b"

subsection \<open>Orders and books\<close>

definition MAX_TICKERS :: int where
  "MAX_TICKERS = 1024"

definition MAX_ORDERS_PER_SIDE :: nat where
  "MAX_ORDERS_PER_SIDE = 1024"

record order =
  active :: bool
  order_type :: int
  ticker :: int
  quantity :: int
  price :: pyfloat

text \<open>The constructor \<^verbatim>\<open>Order.__init__\<close>: a new order is active.\<close>

definition Order :: "int \<Rightarrow> int \<Rightarrow> int \<Rightarrow> pyfloat \<Rightarrow> order" where
  "Order ot t q p =
     \<lparr>active = True, order_type = ot, ticker = t, quantity = q, price = p\<rparr>"

record orderbook =
  buy_orders :: "order option list"
  sell_orders :: "order option list"
  buy_count :: nat
  sell_count :: nat

text \<open>The constructor \<^verbatim>\<open>OrderBook.__init__\<close>.\<close>

definition OrderBook :: orderbook where
  "OrderBook =
     \<lparr>buy_orders = replicate MAX_ORDERS_PER_SIDE None,
      sell_orders = replicate MAX_ORDERS_PER_SIDE None,
      buy_count = 0,
      sell_count = 0\<rparr>"

text \<open>The global \<^verbatim>\<open>orderBooks\<close> as the module creates it.\<close>

definition orderBooks :: "orderbook list" where
  "orderBooks = replicate (nat MAX_TICKERS) OrderBook"

text \<open>
  What \<^verbatim>\<open>matchOrder\<close> prints for a match: the ticker, the buy order's price, the
  lowest sell price and the buy order's quantity.
\<close>

record match_record =
  m_ticker :: int
  buyPrice :: pyfloat
  sellPrice :: pyfloat
  m_quantity :: int

text \<open>
  The outcome values of the interface that the specification describes. The Python
  functions hand back \<^verbatim>\<open>None\<close> on every path (a bare \<^verbatim>\<open>return\<close>, or the end of the
  body), which is the \<open>None\<close> of \<open>outcome option\<close>.
\<close>

datatype outcome =
  Inserted
  | InvalidTicker
  | OrderBookFull
  | NoMatch
  | Matched match_record

subsection \<open>addOrder\<close>

text \<open>
  The two writes of a successful insertion, in the order the source makes them:
  the slot first (line 45 or 51), the counter second (line 47 or 52).
\<close>

definition store_buy :: "nat \<Rightarrow> nat \<Rightarrow> order \<Rightarrow> orderbook list \<Rightarrow> orderbook list" where
  "store_buy k index ord books =
     books[k := (books ! k)\<lparr>buy_orders := (buy_orders (books ! k))[index := Some ord]\<rparr>]"

definition advance_buy_count :: "nat \<Rightarrow> orderbook list \<Rightarrow> orderbook list" where
  "advance_buy_count k books =
     books[k := (books ! k)\<lparr>buy_count := buy_count (books ! k) + 1\<rparr>]"

definition store_sell :: "nat \<Rightarrow> nat \<Rightarrow> order \<Rightarrow> orderbook list \<Rightarrow> orderbook list" where
  "store_sell k index ord books =
     books[k := (books ! k)\<lparr>sell_orders := (sell_orders (books ! k))[index := Some ord]\<rparr>]"

definition advance_sell_count :: "nat \<Rightarrow> orderbook list \<Rightarrow> orderbook list" where
  "advance_sell_count k books =
     books[k := (books ! k)\<lparr>sell_count := sell_count (books ! k) + 1\<rparr>]"

text \<open>
  \<^verbatim>\<open>addOrder(order_type, ticker, quantity, price)\<close>: the value handed back and the new
  global state.
\<close>

definition addOrder ::
  "int \<Rightarrow> int \<Rightarrow> int \<Rightarrow> pyfloat \<Rightarrow> orderbook list \<Rightarrow> outcome option \<times> orderbook list" where
  "addOrder ot t q p books =
     (if t < 0 \<or> t \<ge> MAX_TICKERS then (None, books)
      else
        let book = books ! nat t in
        if ot = 0 then
          let index = buy_count book in
          if index < MAX_ORDERS_PER_SIDE then
            (None, advance_buy_count (nat t) (store_buy (nat t) index (Order ot t q p) books))
          else (None, books)
        else
          let index = sell_count book in
          if index < MAX_ORDERS_PER_SIDE then
            (None, advance_sell_count (nat t) (store_sell (nat t) index (Order ot t q p) books))
          else (None, books))"

subsection \<open>matchOrder\<close>

text \<open>
  One iteration of the first loop (lines 70 to 75) on the pair
  \<^verbatim>\<open>(lowest_sell_price, lowest_sell_index)\<close>.
\<close>

definition sell_step ::
  "order option list \<Rightarrow> nat \<Rightarrow> pyfloat \<times> int \<Rightarrow> pyfloat \<times> int" where
  "sell_step sells i acc =
     (case sells ! i of
        None \<Rightarrow> acc
      | Some ord \<Rightarrow>
          if active ord then
            (if float_lt (price ord) (fst acc) then (price ord, int i) else acc)
          else acc)"

text \<open>The whole first loop, from \<^verbatim>\<open>(inf, -1)\<close> over \<^verbatim>\<open>range(book.sell_count)\<close>.\<close>

definition lowest_sell :: "orderbook \<Rightarrow> pyfloat \<times> int" where
  "lowest_sell book = fold (sell_step (sell_orders book)) [0..<sell_count book] (PosInf, - 1)"

text \<open>
  One iteration of the second loop (lines 82 to 93) at index \<open>j\<close>, for the
  \<^verbatim>\<open>lowest_sell_price\<close> \<open>l\<close>: the book after it, and the printed match when the
  iteration ends in \<^verbatim>\<open>break\<close>. A buy order that passes the price test is marked
  first; the iteration prints and breaks only when the sell order at
  \<^verbatim>\<open>lowest_sell_index\<close> is still active.
\<close>

definition buy_step ::
  "int \<Rightarrow> pyfloat \<Rightarrow> int \<Rightarrow> nat \<Rightarrow> orderbook \<Rightarrow> match_record option \<times> orderbook" where
  "buy_step t l li j book =
     (case buy_orders book ! j of
        None \<Rightarrow> (None, book)
      | Some ord \<Rightarrow>
          if active ord then
            if float_ge (price ord) l then
              if active ord then
                (let book1 = book\<lparr>buy_orders :=
                                     (buy_orders book)[j := Some (ord\<lparr>active := False\<rparr>)]\<rparr>
                 in case sell_orders book1 ! nat li of
                      None \<Rightarrow> (None, book1)
                    | Some sell_order \<Rightarrow>
                        if active sell_order then
                          (Some \<lparr>m_ticker = t, buyPrice = price ord, sellPrice = l,
                                 m_quantity = quantity ord\<rparr>,
                           book1\<lparr>sell_orders :=
                                   (sell_orders book1)
                                     [nat li := Some (sell_order\<lparr>active := False\<rparr>)]\<rparr>)
                        else (None, book1))
              else (None, book)
            else (None, book)
          else (None, book))"

text \<open>The second loop over the remaining indices: the printed matches and the book.\<close>

fun buy_scan ::
  "int \<Rightarrow> pyfloat \<Rightarrow> int \<Rightarrow> nat list \<Rightarrow> orderbook \<Rightarrow> match_record list \<times> orderbook" where
  "buy_scan t l li [] book = ([], book)"
| "buy_scan t l li (j # js) book =
     (case buy_step t l li j book of
        (Some m, book') \<Rightarrow> ([m], book')
      | (None, book') \<Rightarrow> buy_scan t l li js book')"

text \<open>
  \<^verbatim>\<open>matchOrder(ticker)\<close>: the value handed back, the printed matches and the new
  global state.
\<close>

definition matchOrder ::
  "int \<Rightarrow> orderbook list \<Rightarrow> outcome option \<times> match_record list \<times> orderbook list" where
  "matchOrder t books =
     (if t < 0 \<or> t \<ge> MAX_TICKERS then (None, [], books)
      else
        let book = books ! nat t;
            (lowest_sell_price, lowest_sell_index) = lowest_sell book
        in
          if lowest_sell_index = - 1 then (None, [], books)
          else
            let (printed, book') =
                  buy_scan t lowest_sell_price lowest_sell_index [0..<buy_count book] book
            in (None, printed, books[nat t := book']))"

subsection \<open>Sequences of calls\<close>

text \<open>A call of one of the two operations, and the state after a sequence of calls.\<close>

datatype call =
  AddOrder int int int pyfloat
  | MatchOrder int

fun step :: "call \<Rightarrow> orderbook list \<Rightarrow> orderbook list" where
  "step (AddOrder ot t q p) books = snd (addOrder ot t q p books)"
| "step (MatchOrder t) books = snd (snd (matchOrder t books))"

definition exec :: "call list \<Rightarrow> orderbook list \<Rightarrow> orderbook list" where
  "exec cs books = fold step cs books"

text \<open>The side an order type is filed under (line 42: 0 is Buy, anything else Sell).\<close>

datatype side = Buy | Sell

definition side_of :: "int \<Rightarrow> side" where
  "side_of ot = (if ot = 0 then Buy else Sell)"

fun side_slots :: "side \<Rightarrow> orderbook \<Rightarrow> order option list" where
  "side_slots Buy book = buy_orders book"
| "side_slots Sell book = sell_orders book"

fun side_count :: "side \<Rightarrow> orderbook \<Rightarrow> nat" where
  "side_count Buy book = buy_count book"
| "side_count Sell book = sell_count book"

text \<open>
  A successful insertion on side \<open>sd\<close> of ticker \<open>k\<close>: an \<^verbatim>\<open>addOrder\<close> call for that
  ticker and side after which the side's counter is one more than before. The number of
  them along a sequence of calls.
\<close>

fun is_insert :: "nat \<Rightarrow> side \<Rightarrow> call \<Rightarrow> orderbook list \<Rightarrow> bool" where
  "is_insert k sd (AddOrder ot t q p) books \<longleftrightarrow>
     0 \<le> t \<and> nat t = k \<and> side_of ot = sd \<and>
     side_count sd (step (AddOrder ot t q p) books ! k) = side_count sd (books ! k) + 1"
| "is_insert k sd (MatchOrder t) books \<longleftrightarrow> False"

fun insertions :: "nat \<Rightarrow> side \<Rightarrow> call list \<Rightarrow> orderbook list \<Rightarrow> nat" where
  "insertions k sd [] books = 0"
| "insertions k sd (c # cs) books =
     (if is_insert k sd c books then 1 else 0) + insertions k sd cs (step c books)"

subsection \<open>Properties of a state\<close>

text \<open>
  The order-book invariant of one side: the slot list keeps its length, the counter is
  within the capacity, the slots below the counter hold an order and the others none.
\<close>

definition slots_inv :: "order option list \<Rightarrow> nat \<Rightarrow> bool" where
  "slots_inv slots n \<longleftrightarrow>
     length slots = MAX_ORDERS_PER_SIDE \<and> n \<le> MAX_ORDERS_PER_SIDE \<and>
     list_all (\<lambda>x. x \<noteq> None) (take n slots) \<and> list_all (\<lambda>x. x = None) (drop n slots)"

definition book_inv :: "orderbook \<Rightarrow> bool" where
  "book_inv book \<longleftrightarrow>
     slots_inv (buy_orders book) (buy_count book) \<and>
     slots_inv (sell_orders book) (sell_count book)"

definition books_inv :: "orderbook list \<Rightarrow> bool" where
  "books_inv books \<longleftrightarrow> length books = nat MAX_TICKERS \<and> list_all book_inv books"

text \<open>
  An order later in a run, compared with the same slot earlier: every field but
  \<open>active\<close> is the same, and \<open>active\<close> has not gone from false to true.
\<close>

definition order_frozen :: "order \<Rightarrow> order \<Rightarrow> bool" where
  "order_frozen ord ord' \<longleftrightarrow>
     order_type ord' = order_type ord \<and> ticker ord' = ticker ord \<and>
     quantity ord' = quantity ord \<and> price ord' = price ord \<and>
     (active ord' \<longrightarrow> active ord)"

definition slots_ext :: "order option list \<Rightarrow> nat \<Rightarrow> order option list \<Rightarrow> nat \<Rightarrow> bool" where
  "slots_ext slots n slots' n' \<longleftrightarrow>
     n \<le> n' \<and>
     (\<forall>i<length slots. \<forall>ord. slots ! i = Some ord \<longrightarrow>
        (\<exists>ord'. slots' ! i = Some ord' \<and> order_frozen ord ord'))"

definition book_ext :: "orderbook \<Rightarrow> orderbook \<Rightarrow> bool" where
  "book_ext book book' \<longleftrightarrow>
     slots_ext (buy_orders book) (buy_count book) (buy_orders book') (buy_count book') \<and>
     slots_ext (sell_orders book) (sell_count book) (sell_orders book') (sell_count book')"

definition books_ext :: "orderbook list \<Rightarrow> orderbook list \<Rightarrow> bool" where
  "books_ext books books' \<longleftrightarrow>
     length books' = length books \<and> (\<forall>k<length books. book_ext (books ! k) (books' ! k))"

text \<open>Whether a slot holds an active order.\<close>

definition is_active :: "order option \<Rightarrow> bool" where
  "is_active x = (case x of None \<Rightarrow> False | Some ord \<Rightarrow> active ord)"

text \<open>
  A slot that the first loop can end on: it holds an active order whose price compares
  lower than \<^verbatim>\<open>float('inf')\<close>, that is, a finite price or minus infinity.
\<close>

definition below_inf :: "order option \<Rightarrow> bool" where
  "below_inf x = (case x of None \<Rightarrow> False | Some ord \<Rightarrow> active ord \<and> float_lt (price ord) PosInf)"

text \<open>
  The order at index \<open>i\<close> is, among the first \<open>n\<close> slots, the active order of lowest
  price below infinity, and the first of those with that price.
\<close>

definition lowest_active :: "order option list \<Rightarrow> nat \<Rightarrow> nat \<Rightarrow> order \<Rightarrow> bool" where
  "lowest_active slots n i ord \<longleftrightarrow>
     i < n \<and> slots ! i = Some ord \<and> active ord \<and> float_lt (price ord) PosInf \<and>
     (\<forall>j<n. \<forall>ord'. slots ! j = Some ord' \<and> active ord' \<and> float_lt (price ord') PosInf \<longrightarrow>
        float_ge (price ord') (price ord) \<and> (j < i \<longrightarrow> float_lt (price ord) (price ord')))"

text \<open>The test of the second loop on one slot, for a sell price \<open>l\<close>.\<close>

definition buy_eligible :: "pyfloat \<Rightarrow> order option \<Rightarrow> bool" where
  "buy_eligible l x =
     (case x of None \<Rightarrow> False | Some ord \<Rightarrow> active ord \<and> float_ge (price ord) l)"

text \<open>
  The order at index \<open>j\<close> is the first among the first \<open>n\<close> slots that is active with a
  price of at least \<open>l\<close>.
\<close>

definition first_eligible ::
  "pyfloat \<Rightarrow> order option list \<Rightarrow> nat \<Rightarrow> nat \<Rightarrow> order \<Rightarrow> bool" where
  "first_eligible l slots n j bo \<longleftrightarrow>
     j < n \<and> slots ! j = Some bo \<and> active bo \<and> float_ge (price bo) l \<and>
     (\<forall>k<j. \<not> buy_eligible l (slots ! k))"

text \<open>A slot list with the order at index \<open>i\<close> (if any) marked as matched.\<close>

definition deactivate :: "order option list \<Rightarrow> nat \<Rightarrow> order option list" where
  "deactivate slots i = slots[i := map_option (\<lambda>ord. ord\<lparr>active := False\<rparr>) (slots ! i)]"

text \<open>A book after the buy order at \<open>j\<close> and the sell order at \<open>i\<close> were marked.\<close>

definition settled :: "orderbook \<Rightarrow> nat \<Rightarrow> nat \<Rightarrow> orderbook" where
  "settled book j i =
     book\<lparr>buy_orders := deactivate (buy_orders book) j,
          sell_orders := deactivate (sell_orders book) i\<rparr>"

text \<open>
  The pair \<^verbatim>\<open>(j, lowest_sell_index)\<close> at which \<^verbatim>\<open>matchOrder\<close> leaves its second loop
  through \<^verbatim>\<open>break\<close>: the indices of the buy and the sell order of the printed match.
  The functions follow \<open>buy_scan\<close> and \<open>matchOrder\<close> branch by branch and keep the
  indices instead of the state.
\<close>

fun break_index :: "int \<Rightarrow> pyfloat \<Rightarrow> int \<Rightarrow> nat list \<Rightarrow> orderbook \<Rightarrow> nat option" where
  "break_index t l li [] book = None"
| "break_index t l li (j # js) book =
     (case buy_step t l li j book of
        (Some m, book') \<Rightarrow> Some j
      | (None, book') \<Rightarrow> break_index t l li js book')"

definition matched_pair :: "int \<Rightarrow> orderbook list \<Rightarrow> (nat \<times> nat) option" where
  "matched_pair t books =
     (if t < 0 \<or> t \<ge> MAX_TICKERS then None
      else
        let book = books ! nat t;
            (lowest_sell_price, lowest_sell_index) = lowest_sell book
        in
          if lowest_sell_index = - 1 then None
          else
            (case break_index t lowest_sell_price lowest_sell_index [0..<buy_count book] book of
               None \<Rightarrow> None
             | Some j \<Rightarrow> Some (j, nat lowest_sell_index)))"

text \<open>
  The state before the match in the scenario of the specification: two sell orders at
  50 and 40 and one buy order at 60, all of quantity 10, for ticker 5.
\<close>

definition scenario :: "orderbook list" where
  "scenario =
     exec [AddOrder 1 5 10 (Fin 50), AddOrder 1 5 10 (Fin 40), AddOrder 0 5 10 (Fin 60)]
       orderBooks"

subsection \<open>Concurrent calls of addOrder\<close>

text \<open>
  The harness calls \<^verbatim>\<open>addOrder\<close> from several threads on the shared \<^verbatim>\<open>orderBooks\<close>,
  with no lock. A thread can be suspended between two statements of the function (for
  one, within the call \<^verbatim>\<open>Order(...)\<close> on line 45, after line 43 has read the index),
  so a call is modelled by its statements, each taken as one atomic step:
  \<^item> \<open>AtCheck\<close>: the ticker test, and the read of the counter into the local
    \<^verbatim>\<open>index\<close> (lines 38 to 43, or 48 and 49);
  \<^item> \<open>AtStore index\<close>: the capacity test on \<^verbatim>\<open>index\<close> and the write of the new order
    into the slot at \<^verbatim>\<open>index\<close> (lines 44 and 45, or 50 and 51);
  \<^item> \<open>AtAdvance\<close>: the increment of the counter (line 47 or 52);
  \<^item> \<open>AtEnd\<close>: the call has returned.
\<close>

datatype add_pc = AtCheck | AtStore nat | AtAdvance | AtEnd

record add_thread =
  th_type :: int
  th_ticker :: int
  th_quantity :: int
  th_price :: pyfloat
  th_pc :: add_pc

text \<open>A thread that is about to call \<^verbatim>\<open>addOrder(ot, t, q, p)\<close>.\<close>

definition add_call :: "int \<Rightarrow> int \<Rightarrow> int \<Rightarrow> pyfloat \<Rightarrow> add_thread" where
  "add_call ot t q p =
     \<lparr>th_type = ot, th_ticker = t, th_quantity = q, th_price = p, th_pc = AtCheck\<rparr>"

text \<open>One statement of one thread.\<close>

definition thread_step :: "add_thread \<Rightarrow> orderbook list \<Rightarrow> add_thread \<times> orderbook list" where
  "thread_step th books =
     (case th_pc th of
        AtCheck \<Rightarrow>
          if th_ticker th < 0 \<or> th_ticker th \<ge> MAX_TICKERS then (th\<lparr>th_pc := AtEnd\<rparr>, books)
          else
            let book = books ! nat (th_ticker th) in
            if th_type th = 0 then (th\<lparr>th_pc := AtStore (buy_count book)\<rparr>, books)
            else (th\<lparr>th_pc := AtStore (sell_count book)\<rparr>, books)
      | AtStore index \<Rightarrow>
          if index < MAX_ORDERS_PER_SIDE then
            let ord = Order (th_type th) (th_ticker th) (th_quantity th) (th_price th) in
            if th_type th = 0 then
              (th\<lparr>th_pc := AtAdvance\<rparr>, store_buy (nat (th_ticker th)) index ord books)
            else
              (th\<lparr>th_pc := AtAdvance\<rparr>, store_sell (nat (th_ticker th)) index ord books)
          else (th\<lparr>th_pc := AtEnd\<rparr>, books)
      | AtAdvance \<Rightarrow>
          if th_type th = 0 then
            (th\<lparr>th_pc := AtEnd\<rparr>, advance_buy_count (nat (th_ticker th)) books)
          else
            (th\<lparr>th_pc := AtEnd\<rparr>, advance_sell_count (nat (th_ticker th)) books)
      | AtEnd \<Rightarrow> (th, books))"

text \<open>
  A schedule names, step by step, the thread that runs its next statement.
\<close>

fun interleave ::
  "nat list \<Rightarrow> add_thread list \<Rightarrow> orderbook list \<Rightarrow> add_thread list \<times> orderbook list" where
  "interleave [] ths books = (ths, books)"
| "interleave (n # ns) ths books =
     (if n < length ths then
        (case thread_step (ths ! n) books of
           (th', books') \<Rightarrow> interleave ns (ths[n := th']) books')
      else interleave ns ths books)"

section \<open>The two loops of matchOrder\<close>

text \<open>
  The first loop ends either without an index (no active sell order priced below
  infinity under the counter) or on the active order of lowest price at the lowest
  index. The second loop, run
  while the order at \<^verbatim>\<open>lowest_sell_index\<close> is active, either finds no buy order that
  passes its test and changes nothing, or marks the first one that passes and the sell
  order, prints one match and breaks.
\<close>

lemma sell_fold_Suc:
  "fold (sell_step sells) [0..<Suc n] acc = sell_step sells n (fold (sell_step sells) [0..<n] acc)"
  by simp

lemma float_lt_trans: "float_lt a b \<Longrightarrow> float_lt b c \<Longrightarrow> float_lt a c"
  by (cases a; cases b; cases c) simp_all

lemma float_ge_refl: "float_lt a PosInf \<Longrightarrow> float_ge a a"
  by (cases a) (simp_all add: float_ge_def)

lemma float_lt_imp_ge: "float_lt a b \<Longrightarrow> float_ge b a"
  by (cases a; cases b) (simp_all add: float_ge_def)

lemma float_lt_ge_trans: "float_lt a b \<Longrightarrow> float_ge c b \<Longrightarrow> float_lt a c"
  by (cases a; cases b; cases c) (simp_all add: float_ge_def)

lemma float_not_lt_ge:
  "float_lt a PosInf \<Longrightarrow> float_lt b PosInf \<Longrightarrow> \<not> float_lt a b \<Longrightarrow> float_ge a b"
  by (cases a; cases b) (simp_all add: float_ge_def)

lemma float_ge_not_lt: "float_ge a b \<Longrightarrow> \<not> float_lt a b"
  by (simp add: float_ge_def)

lemma sell_fold_char:
  "(fold (sell_step sells) [0..<n] (PosInf, - 1) = (PosInf, - 1)
      \<and> (\<forall>j<n. \<not> below_inf (sells ! j)))
   \<or> (\<exists>i ord. fold (sell_step sells) [0..<n] (PosInf, - 1) = (price ord, int i)
          \<and> lowest_active sells n i ord)"
proof (induction n)
  case 0
  then show ?case by simp
next
  case (Suc n)
  let ?r = "fold (sell_step sells) [0..<n] (PosInf, - 1)"
  from Suc show ?case
  proof
    assume a: "?r = (PosInf, - 1) \<and> (\<forall>j<n. \<not> below_inf (sells ! j))"
    show ?thesis
    proof (cases "below_inf (sells ! n)")
      case True
      then obtain ord where o: "sells ! n = Some ord" "active ord" "float_lt (price ord) PosInf"
        by (auto simp: below_inf_def split: option.splits)
      have "\<forall>j<Suc n. \<forall>ord'. sells ! j = Some ord' \<and> active ord' \<and> float_lt (price ord') PosInf
              \<longrightarrow> float_ge (price ord') (price ord) \<and> (j < n \<longrightarrow> float_lt (price ord) (price ord'))"
      proof (intro allI impI)
        fix j ord'
        assume j: "j < Suc n"
          and h: "sells ! j = Some ord' \<and> active ord' \<and> float_lt (price ord') PosInf"
        then have "below_inf (sells ! j)" by (simp add: below_inf_def)
        with a j have "j = n" by (auto simp: less_Suc_eq)
        with h o show "float_ge (price ord') (price ord) \<and> (j < n \<longrightarrow> float_lt (price ord) (price ord'))"
          by (simp add: float_ge_refl)
      qed
      then have "lowest_active sells (Suc n) n ord"
        using o by (simp add: lowest_active_def)
      moreover have "fold (sell_step sells) [0..<Suc n] (PosInf, - 1) = (price ord, int n)"
        using a o by (simp add: sell_step_def)
      ultimately show ?thesis by blast
    next
      case False
      then have "fold (sell_step sells) [0..<Suc n] (PosInf, - 1) = (PosInf, - 1)"
        using a by (auto simp: sell_step_def below_inf_def split: option.splits)
      moreover have "\<forall>j<Suc n. \<not> below_inf (sells ! j)"
        using a False by (simp add: less_Suc_eq)
      ultimately show ?thesis by blast
    qed
  next
    assume "\<exists>i ord. ?r = (price ord, int i) \<and> lowest_active sells n i ord"
    then obtain i and ord :: order where r: "?r = (price ord, int i)"
      and la: "lowest_active sells n i ord"
      by blast
    from la have i: "i < n" and oi: "sells ! i = Some ord" "active ord"
      and fin: "float_lt (price ord) PosInf"
      and low: "\<And>j ord'. j < n \<Longrightarrow> sells ! j = Some ord' \<Longrightarrow> active ord' \<Longrightarrow>
                  float_lt (price ord') PosInf \<Longrightarrow>
                  float_ge (price ord') (price ord) \<and> (j < i \<longrightarrow> float_lt (price ord) (price ord'))"
      unfolding lowest_active_def by blast+
    show ?thesis
    proof (cases "\<exists>ord'. sells ! n = Some ord' \<and> active ord' \<and> float_lt (price ord') (price ord)")
      case True
      then obtain ord' where o: "sells ! n = Some ord'" "active ord'"
        "float_lt (price ord') (price ord)"
        by blast
      have fin': "float_lt (price ord') PosInf" using o(3) fin by (rule float_lt_trans)
      have "fold (sell_step sells) [0..<Suc n] (PosInf, - 1) = (price ord', int n)"
        using r o by (simp add: sell_step_def)
      moreover have "\<forall>j<Suc n. \<forall>x. sells ! j = Some x \<and> active x \<and> float_lt (price x) PosInf
              \<longrightarrow> float_ge (price x) (price ord') \<and> (j < n \<longrightarrow> float_lt (price ord') (price x))"
      proof (intro allI impI)
        fix j x
        assume j: "j < Suc n" and h: "sells ! j = Some x \<and> active x \<and> float_lt (price x) PosInf"
        show "float_ge (price x) (price ord') \<and> (j < n \<longrightarrow> float_lt (price ord') (price x))"
        proof (cases "j = n")
          case True
          with h o fin' show ?thesis by (simp add: float_ge_refl)
        next
          case False
          with j have jn: "j < n" by simp
          from low[OF jn] h have "float_ge (price x) (price ord)" by blast
          with o(3) have "float_lt (price ord') (price x)" by (rule float_lt_ge_trans)
          then show ?thesis by (simp add: float_lt_imp_ge)
        qed
      qed
      then have "lowest_active sells (Suc n) n ord'"
        using o fin' by (simp add: lowest_active_def)
      ultimately show ?thesis by blast
    next
      case False
      then have "fold (sell_step sells) [0..<Suc n] (PosInf, - 1) = (price ord, int i)"
        using r by (auto simp: sell_step_def split: option.splits)
      moreover have "\<forall>j<Suc n. \<forall>x. sells ! j = Some x \<and> active x \<and> float_lt (price x) PosInf
              \<longrightarrow> float_ge (price x) (price ord) \<and> (j < i \<longrightarrow> float_lt (price ord) (price x))"
      proof (intro allI impI)
        fix j x
        assume j: "j < Suc n" and h: "sells ! j = Some x \<and> active x \<and> float_lt (price x) PosInf"
        show "float_ge (price x) (price ord) \<and> (j < i \<longrightarrow> float_lt (price ord) (price x))"
        proof (cases "j = n")
          case True
          with h False have "\<not> float_lt (price x) (price ord)" by blast
          with h fin have "float_ge (price x) (price ord)" by (simp add: float_not_lt_ge)
          with True i show ?thesis by simp
        next
          case False
          with j have jn: "j < n" by simp
          from low[OF jn] h show ?thesis by blast
        qed
      qed
      then have "lowest_active sells (Suc n) i ord"
        using i oi fin by (simp add: lowest_active_def)
      ultimately show ?thesis by blast
    qed
  qed
qed

lemma buy_step_skip:
  "\<not> buy_eligible l (buy_orders book ! j) \<Longrightarrow> buy_step t l li j book = (None, book)"
  by (auto simp: buy_step_def buy_eligible_def split: option.splits)

lemma buy_step_match:
  assumes "sell_orders book ! nat li = Some so" "active so"
    and "buy_orders book ! j = Some bo" "active bo" "float_ge (price bo) l"
  shows "buy_step t l li j book =
           (Some \<lparr>m_ticker = t, buyPrice = price bo, sellPrice = l, m_quantity = quantity bo\<rparr>,
            book\<lparr>buy_orders := deactivate (buy_orders book) j,
                 sell_orders := deactivate (sell_orders book) (nat li)\<rparr>)"
  using assms by (simp add: buy_step_def deactivate_def)

lemma buy_scan_none:
  "\<forall>j\<in>set js. \<not> buy_eligible l (buy_orders book ! j) \<Longrightarrow> buy_scan t l li js book = ([], book)"
  by (induction js) (simp_all add: buy_step_skip)

lemma buy_scan_first:
  assumes "sell_orders book ! nat li = Some so" "active so"
    and "\<forall>k\<in>set pre. \<not> buy_eligible l (buy_orders book ! k)"
    and "buy_orders book ! j = Some bo" "active bo" "float_ge (price bo) l"
  shows "buy_scan t l li (pre @ j # post) book =
           ([\<lparr>m_ticker = t, buyPrice = price bo, sellPrice = l, m_quantity = quantity bo\<rparr>],
            book\<lparr>buy_orders := deactivate (buy_orders book) j,
                 sell_orders := deactivate (sell_orders book) (nat li)\<rparr>)"
  using assms(3)
proof (induction pre)
  case Nil
  show ?case using buy_step_match[OF assms(1,2,4,5,6)] by simp
next
  case (Cons k pre)
  then show ?case by (simp add: buy_step_skip)
qed

lemma upt_split: "j < n \<Longrightarrow> [0..<n] = [0..<j] @ j # [Suc j..<n]"
proof -
  assume jn: "j < n"
  have "[0..<j + (n - j)] = [0..<j] @ [j..<j + (n - j)]"
    by (rule upt_add_eq_append) simp
  moreover have "j + (n - j) = n" using jn by simp
  moreover have "[j..<n] = j # [Suc j..<n]" using jn by (rule upt_conv_Cons)
  ultimately show ?thesis by simp
qed

lemma lowest_sell_char:
  "(lowest_sell book = (PosInf, - 1) \<and> (\<forall>j<sell_count book. \<not> below_inf (sell_orders book ! j)))
   \<or> (\<exists>i ord. lowest_sell book = (price ord, int i)
          \<and> lowest_active (sell_orders book) (sell_count book) i ord)"
  unfolding lowest_sell_def by (rule sell_fold_char)

lemma buy_scan_char:
  assumes "sell_orders book ! i = Some so" "active so"
  shows "(buy_scan t l (int i) [0..<n] book = ([], book)
            \<and> (\<forall>j<n. \<not> buy_eligible l (buy_orders book ! j)))
         \<or> (\<exists>j bo. first_eligible l (buy_orders book) n j bo
              \<and> buy_scan t l (int i) [0..<n] book =
                  ([\<lparr>m_ticker = t, buyPrice = price bo, sellPrice = l,
                     m_quantity = quantity bo\<rparr>], settled book j i))"
proof (cases "\<exists>j<n. buy_eligible l (buy_orders book ! j)")
  case False
  then have "\<forall>j\<in>set [0..<n]. \<not> buy_eligible l (buy_orders book ! j)" by simp
  then have "buy_scan t l (int i) [0..<n] book = ([], book)" by (rule buy_scan_none)
  with False show ?thesis by blast
next
  case True
  then obtain j where j: "j < n \<and> buy_eligible l (buy_orders book ! j)"
    and least: "\<forall>k<j. \<not> (k < n \<and> buy_eligible l (buy_orders book ! k))"
    using exists_least_iff[of "\<lambda>j. j < n \<and> buy_eligible l (buy_orders book ! j)"] by blast
  from j obtain bo where bo: "buy_orders book ! j = Some bo" "active bo" "float_ge (price bo) l"
    by (auto simp: buy_eligible_def split: option.splits)
  have pre: "\<forall>k\<in>set [0..<j]. \<not> buy_eligible l (buy_orders book ! k)"
    using least j by auto
  have fe: "first_eligible l (buy_orders book) n j bo"
    using j bo least by (auto simp: first_eligible_def)
  have s: "sell_orders book ! nat (int i) = Some so" using assms(1) by simp
  have "buy_scan t l (int i) ([0..<j] @ j # [Suc j..<n]) book =
          ([\<lparr>m_ticker = t, buyPrice = price bo, sellPrice = l, m_quantity = quantity bo\<rparr>],
           book\<lparr>buy_orders := deactivate (buy_orders book) j,
                sell_orders := deactivate (sell_orders book) (nat (int i))\<rparr>)"
    by (rule buy_scan_first[OF s assms(2) pre bo])
  then have "buy_scan t l (int i) [0..<n] book =
          ([\<lparr>m_ticker = t, buyPrice = price bo, sellPrice = l, m_quantity = quantity bo\<rparr>],
           settled book j i)"
    using upt_split[of j n] j by (simp add: settled_def)
  with fe show ?thesis by blast
qed

lemma matchOrder_char:
  assumes "0 \<le> t" "t < MAX_TICKERS"
  shows "(matchOrder t books = (None, [], books)
            \<and> (\<forall>j<sell_count (books ! nat t). \<not> below_inf (sell_orders (books ! nat t) ! j)))
         \<or> (\<exists>i so. lowest_active (sell_orders (books ! nat t)) (sell_count (books ! nat t)) i so
              \<and> lowest_sell (books ! nat t) = (price so, int i)
              \<and> ((matchOrder t books = (None, [], books)
                    \<and> (\<forall>j<buy_count (books ! nat t).
                          \<not> buy_eligible (price so) (buy_orders (books ! nat t) ! j)))
                  \<or> (\<exists>j bo. first_eligible (price so) (buy_orders (books ! nat t))
                               (buy_count (books ! nat t)) j bo
                        \<and> matchOrder t books =
                            (None,
                             [\<lparr>m_ticker = t, buyPrice = price bo, sellPrice = price so,
                               m_quantity = quantity bo\<rparr>],
                             books[nat t := settled (books ! nat t) j i]))))"
proof -
  let ?b = "books ! nat t"
  from lowest_sell_char[of ?b] show ?thesis
  proof
    assume a: "lowest_sell ?b = (PosInf, - 1) \<and> (\<forall>j<sell_count ?b. \<not> below_inf (sell_orders ?b ! j))"
    then have "matchOrder t books = (None, [], books)"
      using assms by (simp add: matchOrder_def)
    with a show ?thesis by blast
  next
    assume "\<exists>i ord. lowest_sell ?b = (price ord, int i)
              \<and> lowest_active (sell_orders ?b) (sell_count ?b) i ord"
    then obtain i so where ls: "lowest_sell ?b = (price so, int i)"
      and la: "lowest_active (sell_orders ?b) (sell_count ?b) i so" by blast
    from la have so: "sell_orders ?b ! i = Some so" "active so"
      by (simp_all add: lowest_active_def)
    have m: "matchOrder t books =
               (None, fst (buy_scan t (price so) (int i) [0..<buy_count ?b] ?b),
                books[nat t := snd (buy_scan t (price so) (int i) [0..<buy_count ?b] ?b)])"
      using assms ls by (simp add: matchOrder_def split_beta Let_def)
    from buy_scan_char[OF so, of t "price so" "buy_count ?b"] show ?thesis
    proof
      assume n: "buy_scan t (price so) (int i) [0..<buy_count ?b] ?b = ([], ?b)
                   \<and> (\<forall>j<buy_count ?b. \<not> buy_eligible (price so) (buy_orders ?b ! j))"
      then have "matchOrder t books = (None, [], books)" using m by simp
      with n la ls show ?thesis by blast
    next
      assume "\<exists>j bo. first_eligible (price so) (buy_orders ?b) (buy_count ?b) j bo
              \<and> buy_scan t (price so) (int i) [0..<buy_count ?b] ?b =
                  ([\<lparr>m_ticker = t, buyPrice = price bo, sellPrice = price so,
                     m_quantity = quantity bo\<rparr>], settled ?b j i)"
      then obtain j bo where fe: "first_eligible (price so) (buy_orders ?b) (buy_count ?b) j bo"
        and bs: "buy_scan t (price so) (int i) [0..<buy_count ?b] ?b =
                  ([\<lparr>m_ticker = t, buyPrice = price bo, sellPrice = price so,
                     m_quantity = quantity bo\<rparr>], settled ?b j i)" by blast
      have "matchOrder t books =
              (None, [\<lparr>m_ticker = t, buyPrice = price bo, sellPrice = price so,
                       m_quantity = quantity bo\<rparr>], books[nat t := settled ?b j i])"
        using m bs by simp
      with fe la ls show ?thesis by blast
    qed
  qed
qed

section \<open>Invariants and their preservation\<close>

text \<open>
  The initial state satisfies the invariant, and both operations keep it. Under it the
  slot lists have \<^verbatim>\<open>MAX_ORDERS_PER_SIDE\<close> entries and the counters are at most that, so
  every index the code reads or writes (below a counter, or at a counter that is below
  the capacity) is within its list, as is the book index of a ticker in range: no
  access of the source can raise \<^verbatim>\<open>IndexError\<close> in such a state.
\<close>

lemma slots_inv_nth:
  "slots_inv slots n \<longleftrightarrow>
     length slots = MAX_ORDERS_PER_SIDE \<and> n \<le> MAX_ORDERS_PER_SIDE \<and>
     (\<forall>i<n. slots ! i \<noteq> None) \<and> (\<forall>i. n \<le> i \<and> i < MAX_ORDERS_PER_SIDE \<longrightarrow> slots ! i = None)"
proof -
  have a: "length slots = MAX_ORDERS_PER_SIDE \<Longrightarrow> n \<le> MAX_ORDERS_PER_SIDE \<Longrightarrow>
        list_all (\<lambda>x. x \<noteq> None) (take n slots) \<longleftrightarrow> (\<forall>i<n. slots ! i \<noteq> None)"
    by (simp add: list_all_length)
  have b: "length slots = MAX_ORDERS_PER_SIDE \<Longrightarrow> n \<le> MAX_ORDERS_PER_SIDE \<Longrightarrow>
        list_all (\<lambda>x. x = None) (drop n slots) \<longleftrightarrow>
          (\<forall>i. n \<le> i \<and> i < MAX_ORDERS_PER_SIDE \<longrightarrow> slots ! i = None)"
  proof -
    assume l: "length slots = MAX_ORDERS_PER_SIDE" and n: "n \<le> MAX_ORDERS_PER_SIDE"
    have "list_all (\<lambda>x. x = None) (drop n slots) \<longleftrightarrow>
            (\<forall>i<MAX_ORDERS_PER_SIDE - n. slots ! (n + i) = None)"
      using l n by (simp add: list_all_length)
    also have "\<dots> \<longleftrightarrow> (\<forall>i. n \<le> i \<and> i < MAX_ORDERS_PER_SIDE \<longrightarrow> slots ! i = None)"
    proof
      assume h: "\<forall>i<MAX_ORDERS_PER_SIDE - n. slots ! (n + i) = None"
      show "\<forall>i. n \<le> i \<and> i < MAX_ORDERS_PER_SIDE \<longrightarrow> slots ! i = None"
      proof (intro allI impI)
        fix i assume "n \<le> i \<and> i < MAX_ORDERS_PER_SIDE"
        then have "i - n < MAX_ORDERS_PER_SIDE - n" "n + (i - n) = i" by auto
        with h show "slots ! i = None" by metis
      qed
    next
      assume "\<forall>i. n \<le> i \<and> i < MAX_ORDERS_PER_SIDE \<longrightarrow> slots ! i = None"
      then show "\<forall>i<MAX_ORDERS_PER_SIDE - n. slots ! (n + i) = None" by auto
    qed
    finally show ?thesis .
  qed
  show ?thesis unfolding slots_inv_def using a b by blast
qed

lemma slots_inv_empty: "slots_inv (replicate MAX_ORDERS_PER_SIDE None) 0"
  by (simp add: slots_inv_nth)

lemma book_inv_OrderBook: "book_inv OrderBook"
  by (simp add: book_inv_def OrderBook_def slots_inv_empty)

lemma books_inv_orderBooks: "books_inv orderBooks"
  by (simp add: books_inv_def orderBooks_def list_all_length book_inv_OrderBook)

lemma books_inv_nth: "books_inv books \<Longrightarrow> k < nat MAX_TICKERS \<Longrightarrow> book_inv (books ! k)"
  by (simp add: books_inv_def list_all_length)

lemma books_inv_length: "books_inv books \<Longrightarrow> length books = nat MAX_TICKERS"
  by (simp add: books_inv_def)

lemma valid_ticker_index: "0 \<le> t \<Longrightarrow> t < MAX_TICKERS \<Longrightarrow> nat t < nat MAX_TICKERS"
  by simp

lemma slots_inv_store:
  assumes "slots_inv slots n" "n < MAX_ORDERS_PER_SIDE"
  shows "slots_inv (slots[n := Some ord]) (n + 1)"
  using assms unfolding slots_inv_nth by (auto simp: nth_list_update less_Suc_eq)

lemma length_deactivate: "length (deactivate slots i) = length slots"
  by (simp add: deactivate_def)

lemma deactivate_nth:
  "i < length slots \<Longrightarrow>
     deactivate slots i ! k =
       (if k = i then map_option (\<lambda>ord. ord\<lparr>active := False\<rparr>) (slots ! k) else slots ! k)"
  by (simp add: deactivate_def nth_list_update)

lemma deactivate_beyond: "\<not> i < length slots \<Longrightarrow> deactivate slots i = slots"
  unfolding deactivate_def by (rule list_update_beyond) simp

lemma deactivate_None_iff: "deactivate slots i ! k = None \<longleftrightarrow> slots ! k = None"
  by (cases "i < length slots") (simp_all add: deactivate_nth deactivate_beyond)

lemma slots_inv_deactivate:
  assumes "slots_inv slots n"
  shows "slots_inv (deactivate slots i) n"
  using assms unfolding slots_inv_nth by (simp add: length_deactivate deactivate_None_iff)

lemma addOrder_buy_eq:
  assumes "0 \<le> t" "t < MAX_TICKERS" "buy_count (books ! nat t) < MAX_ORDERS_PER_SIDE"
    and "nat t < length books"
  shows "addOrder 0 t q p books =
           (None, books[nat t := (books ! nat t)
              \<lparr>buy_orders := (buy_orders (books ! nat t))
                               [buy_count (books ! nat t) := Some (Order 0 t q p)],
               buy_count := buy_count (books ! nat t) + 1\<rparr>])"
  using assms by (simp add: addOrder_def store_buy_def advance_buy_count_def Let_def)

lemma addOrder_sell_eq:
  assumes "0 \<le> t" "t < MAX_TICKERS" "sell_count (books ! nat t) < MAX_ORDERS_PER_SIDE"
    and "nat t < length books" "ot \<noteq> 0"
  shows "addOrder ot t q p books =
           (None, books[nat t := (books ! nat t)
              \<lparr>sell_orders := (sell_orders (books ! nat t))
                               [sell_count (books ! nat t) := Some (Order ot t q p)],
               sell_count := sell_count (books ! nat t) + 1\<rparr>])"
  using assms by (simp add: addOrder_def store_sell_def advance_sell_count_def Let_def)

lemma addOrder_full_eq:
  assumes "side_count (side_of ot) (books ! nat t) \<ge> MAX_ORDERS_PER_SIDE"
  shows "addOrder ot t q p books = (None, books)"
  using assms by (auto simp: addOrder_def side_of_def Let_def)

lemma addOrder_returns_None: "fst (addOrder ot t q p books) = None"
  by (simp add: addOrder_def Let_def)

lemma matchOrder_returns_None: "fst (matchOrder t books) = None"
  by (simp add: matchOrder_def Let_def split: prod.splits option.splits)


lemma books_inv_update:
  "books_inv books \<Longrightarrow> book_inv b \<Longrightarrow> books_inv (books[k := b])"
  by (cases "k < length books") (auto simp: books_inv_def list_all_length nth_list_update)

lemma order_frozen_refl: "order_frozen ord ord"
  by (simp add: order_frozen_def)

lemma order_frozen_trans:
  "order_frozen a b \<Longrightarrow> order_frozen b c \<Longrightarrow> order_frozen a c"
  by (simp add: order_frozen_def)

lemma slots_ext_refl: "slots_ext slots n slots n"
  by (simp add: slots_ext_def order_frozen_refl)

lemma slots_ext_trans:
  assumes "slots_ext s1 n1 s2 n2" "slots_ext s2 n2 s3 n3" "length s2 = length s1"
  shows "slots_ext s1 n1 s3 n3"
  unfolding slots_ext_def
proof (intro conjI allI impI)
  show "n1 \<le> n3" using assms by (simp add: slots_ext_def)
next
  fix i ord assume i: "i < length s1" and o: "s1 ! i = Some ord"
  from assms(1) i o obtain ord2 where o2: "s2 ! i = Some ord2" "order_frozen ord ord2"
    unfolding slots_ext_def by blast
  from assms(2,3) i o2 obtain ord3 where "s3 ! i = Some ord3" "order_frozen ord2 ord3"
    unfolding slots_ext_def by force
  with o2 show "\<exists>ord'. s3 ! i = Some ord' \<and> order_frozen ord ord'"
    using order_frozen_trans by blast
qed

lemma slots_ext_store:
  assumes "slots_inv slots n" "n < MAX_ORDERS_PER_SIDE"
  shows "slots_ext slots n (slots[n := Some ord]) (n + 1)"
  unfolding slots_ext_def
proof (intro conjI allI impI)
  show "n \<le> n + 1" by simp
next
  fix i ord' assume i: "i < length slots" and o: "slots ! i = Some ord'"
  have "i \<noteq> n" using assms i o unfolding slots_inv_nth by auto
  then show "\<exists>ord''. slots[n := Some ord] ! i = Some ord'' \<and> order_frozen ord' ord''"
    using o by (simp add: order_frozen_refl)
qed

lemma slots_ext_deactivate: "slots_ext slots n (deactivate slots i) n"
proof (cases "i < length slots")
  case True
  then show ?thesis
    by (auto simp: slots_ext_def deactivate_nth order_frozen_def)
next
  case False
  then show ?thesis by (simp add: deactivate_beyond slots_ext_refl)
qed

lemma book_ext_refl: "book_ext b b"
  by (simp add: book_ext_def slots_ext_refl)

lemma books_ext_refl: "books_ext books books"
  by (simp add: books_ext_def book_ext_refl)

lemma books_ext_update:
  "book_ext (books ! k) b \<Longrightarrow> books_ext books (books[k := b])"
  by (cases "k < length books") (auto simp: books_ext_def nth_list_update book_ext_refl)

lemma books_ext_trans:
  assumes "books_ext s1 s2" "books_ext s2 s3" "books_inv s1" "books_inv s2"
  shows "books_ext s1 s3"
  unfolding books_ext_def
proof (intro conjI allI impI)
  show "length s3 = length s1" using assms by (simp add: books_ext_def)
next
  fix k assume k: "k < length s1"
  then have k2: "k < length s2" using assms(1) by (simp add: books_ext_def)
  have kk: "k < nat MAX_TICKERS" using k assms(3) by (simp add: books_inv_def)
  have e1: "book_ext (s1 ! k) (s2 ! k)" using assms(1) k by (simp add: books_ext_def)
  have e2: "book_ext (s2 ! k) (s3 ! k)" using assms(2) k2 by (simp add: books_ext_def)
  have i1: "book_inv (s1 ! k)" using assms(3) kk by (rule books_inv_nth)
  have i2: "book_inv (s2 ! k)" using assms(4) kk by (rule books_inv_nth)
  have lb: "length (buy_orders (s2 ! k)) = length (buy_orders (s1 ! k))"
    using i1 i2 by (simp add: book_inv_def slots_inv_def)
  have ls: "length (sell_orders (s2 ! k)) = length (sell_orders (s1 ! k))"
    using i1 i2 by (simp add: book_inv_def slots_inv_def)
  show "book_ext (s1 ! k) (s3 ! k)"
    using e1 e2 lb ls unfolding book_ext_def
    by (blast intro: slots_ext_trans)
qed

lemma addOrder_inv_ext:
  assumes "books_inv books"
  shows "books_inv (snd (addOrder ot t q p books)) \<and> books_ext books (snd (addOrder ot t q p books))"
proof (cases "0 \<le> t \<and> t < MAX_TICKERS \<and> side_count (side_of ot) (books ! nat t) < MAX_ORDERS_PER_SIDE")
  case False
  then have "addOrder ot t q p books = (None, books)"
    by (auto simp: addOrder_def side_of_def Let_def)
  then show ?thesis using assms by (simp add: books_ext_refl)
next
  case True
  then have t: "0 \<le> t" "t < MAX_TICKERS" by simp_all
  then have k: "nat t < nat MAX_TICKERS" by simp
  then have kl: "nat t < length books" using assms by (simp add: books_inv_def)
  have bi: "book_inv (books ! nat t)" using assms k by (rule books_inv_nth)
  let ?b = "books ! nat t"
  show ?thesis
  proof (cases "ot = 0")
    case True
    with \<open>0 \<le> t \<and> t < MAX_TICKERS \<and> side_count (side_of ot) ?b < MAX_ORDERS_PER_SIDE\<close>
    have c: "buy_count ?b < MAX_ORDERS_PER_SIDE" by (simp add: side_of_def)
    let ?b' = "?b\<lparr>buy_orders := (buy_orders ?b)[buy_count ?b := Some (Order 0 t q p)],
                   buy_count := buy_count ?b + 1\<rparr>"
    have eq: "snd (addOrder ot t q p books) = books[nat t := ?b']"
      using addOrder_buy_eq[OF t c kl, of q p] True by simp
    have "book_inv ?b'"
      using bi c slots_inv_store[of "buy_orders ?b" "buy_count ?b"] by (simp add: book_inv_def)
    moreover have "book_ext ?b ?b'"
      using bi c slots_ext_store[of "buy_orders ?b" "buy_count ?b"]
      by (simp add: book_inv_def book_ext_def slots_ext_refl)
    ultimately show ?thesis
      using eq assms books_inv_update books_ext_update by simp
  next
    case False
    with \<open>0 \<le> t \<and> t < MAX_TICKERS \<and> side_count (side_of ot) ?b < MAX_ORDERS_PER_SIDE\<close>
    have c: "sell_count ?b < MAX_ORDERS_PER_SIDE" by (simp add: side_of_def)
    let ?b' = "?b\<lparr>sell_orders := (sell_orders ?b)[sell_count ?b := Some (Order ot t q p)],
                   sell_count := sell_count ?b + 1\<rparr>"
    have eq: "snd (addOrder ot t q p books) = books[nat t := ?b']"
      using addOrder_sell_eq[OF t c kl False, of q p] by simp
    have "book_inv ?b'"
      using bi c slots_inv_store[of "sell_orders ?b" "sell_count ?b"] by (simp add: book_inv_def)
    moreover have "book_ext ?b ?b'"
      using bi c slots_ext_store[of "sell_orders ?b" "sell_count ?b"]
      by (simp add: book_inv_def book_ext_def slots_ext_refl)
    ultimately show ?thesis
      using eq assms books_inv_update books_ext_update by simp
  qed
qed

lemma settled_inv: "book_inv b \<Longrightarrow> book_inv (settled b j i)"
  by (simp add: book_inv_def settled_def slots_inv_deactivate)

lemma settled_ext: "book_ext b (settled b j i)"
  by (simp add: book_ext_def settled_def slots_ext_deactivate)

lemma matchOrder_state:
  "snd (snd (matchOrder t books)) = books
   \<or> (0 \<le> t \<and> t < MAX_TICKERS
       \<and> (\<exists>j i. snd (snd (matchOrder t books)) = books[nat t := settled (books ! nat t) j i]))"
proof (cases "0 \<le> t \<and> t < MAX_TICKERS")
  case False
  then show ?thesis by (auto simp: matchOrder_def)
next
  case True
  then have t: "0 \<le> t" "t < MAX_TICKERS" by simp_all
  from matchOrder_char[OF t, of books] show ?thesis
  proof (elim disjE conjE exE)
    assume "matchOrder t books = (None, [], books)"
    then show ?thesis by simp
  next
    assume "matchOrder t books = (None, [], books)"
    then show ?thesis by simp
  next
    fix i j :: nat and so bo :: order
    assume "matchOrder t books =
              (None, [\<lparr>m_ticker = t, buyPrice = price bo, sellPrice = price so,
                        m_quantity = quantity bo\<rparr>],
               books[nat t := settled (books ! nat t) j i])"
    then have "snd (snd (matchOrder t books)) = books[nat t := settled (books ! nat t) j i]"
      by simp
    with t show ?thesis by blast
  qed
qed

lemma matchOrder_inv_ext:
  assumes "books_inv books"
  shows "books_inv (snd (snd (matchOrder t books)))
         \<and> books_ext books (snd (snd (matchOrder t books)))"
  using matchOrder_state[of t books]
proof
  assume "snd (snd (matchOrder t books)) = books"
  then show ?thesis using assms by (simp add: books_ext_refl)
next
  assume "0 \<le> t \<and> t < MAX_TICKERS
       \<and> (\<exists>j i. snd (snd (matchOrder t books)) = books[nat t := settled (books ! nat t) j i])"
  then obtain j i where t: "0 \<le> t" "t < MAX_TICKERS"
    and eq: "snd (snd (matchOrder t books)) = books[nat t := settled (books ! nat t) j i]"
    by blast
  have "book_inv (books ! nat t)" using assms t by (simp add: books_inv_nth)
  then have "book_inv (settled (books ! nat t) j i)" by (rule settled_inv)
  then show ?thesis using eq assms books_inv_update books_ext_update settled_ext by simp
qed

lemma step_inv_ext:
  "books_inv books \<Longrightarrow> books_inv (step c books) \<and> books_ext books (step c books)"
  by (cases c) (simp_all add: addOrder_inv_ext matchOrder_inv_ext)

lemma exec_Cons: "exec (c # cs) books = exec cs (step c books)"
  by (simp add: exec_def)

lemma exec_Nil: "exec [] books = books"
  by (simp add: exec_def)

lemma exec_append: "exec (cs @ cs') books = exec cs' (exec cs books)"
  by (simp add: exec_def)

lemma exec_inv_ext:
  "books_inv books \<Longrightarrow> books_inv (exec cs books) \<and> books_ext books (exec cs books)"
proof (induction cs arbitrary: books)
  case Nil
  then show ?case by (simp add: exec_Nil books_ext_refl)
next
  case (Cons c cs)
  have s: "books_inv (step c books)" "books_ext books (step c books)"
    using step_inv_ext[OF Cons.prems] by simp_all
  have r: "books_inv (exec cs (step c books))" "books_ext (step c books) (exec cs (step c books))"
    using Cons.IH[OF s(1)] by simp_all
  show ?case
    using r s Cons.prems books_ext_trans[OF s(2) r(2)] by (simp add: exec_Cons)
qed

section \<open>The indices of a match\<close>

lemma orderBooks_nth: "k < nat MAX_TICKERS \<Longrightarrow> orderBooks ! k = OrderBook"
  by (simp add: orderBooks_def)

lemma break_index_printed:
  "break_index t l li js book = None \<longleftrightarrow> fst (buy_scan t l li js book) = []"
  by (induction js arbitrary: book) (auto split: prod.splits option.splits)

lemma break_index_none:
  "\<forall>j\<in>set js. \<not> buy_eligible l (buy_orders book ! j) \<Longrightarrow> break_index t l li js book = None"
  by (induction js) (simp_all add: buy_step_skip)

lemma break_index_first:
  assumes "sell_orders book ! nat li = Some so" "active so"
    and "\<forall>k\<in>set pre. \<not> buy_eligible l (buy_orders book ! k)"
    and "buy_orders book ! j = Some bo" "active bo" "float_ge (price bo) l"
  shows "break_index t l li (pre @ j # post) book = Some j"
  using assms(3)
proof (induction pre)
  case Nil
  show ?case using buy_step_match[OF assms(1,2,4,5,6)] by simp
next
  case (Cons k pre)
  then show ?case by (simp add: buy_step_skip)
qed

lemma first_eligible_split:
  assumes "first_eligible l slots n j bo"
  shows "[0..<n] = [0..<j] @ j # [Suc j..<n] \<and> (\<forall>k\<in>set [0..<j]. \<not> buy_eligible l (slots ! k))"
  using assms upt_split[of j n] by (simp add: first_eligible_def)

lemma first_eligible_unique:
  assumes "first_eligible l slots n j bo" "first_eligible l slots n j' bo'"
  shows "j' = j \<and> bo' = bo"
proof -
  have e: "buy_eligible l (slots ! j)" "buy_eligible l (slots ! j')"
    using assms by (simp_all add: first_eligible_def buy_eligible_def)
  have "\<not> j < j'" "\<not> j' < j"
    using assms e by (auto simp: first_eligible_def)
  then have "j' = j" by simp
  then show ?thesis using assms by (simp add: first_eligible_def)
qed

lemma matched_pair_char:
  assumes "0 \<le> t" "t < MAX_TICKERS"
    and "lowest_sell (books ! nat t) = (price so, int i)"
    and "lowest_active (sell_orders (books ! nat t)) (sell_count (books ! nat t)) i so"
  shows "(\<forall>j bo. first_eligible (price so) (buy_orders (books ! nat t))
                    (buy_count (books ! nat t)) j bo
            \<longrightarrow> matched_pair t books = Some (j, i))
         \<and> ((\<forall>j<buy_count (books ! nat t).
                \<not> buy_eligible (price so) (buy_orders (books ! nat t) ! j))
            \<longrightarrow> matched_pair t books = None)"
proof -
  let ?b = "books ! nat t"
  from assms(4) have so: "sell_orders ?b ! nat (int i) = Some so" "active so"
    by (simp_all add: lowest_active_def)
  have m: "matched_pair t books =
             (case break_index t (price so) (int i) [0..<buy_count ?b] ?b of
                None \<Rightarrow> None | Some j \<Rightarrow> Some (j, i))"
    using assms(1,2,3) by (simp add: matched_pair_def Let_def split: option.splits)
  show ?thesis
  proof (intro conjI allI impI)
    fix j bo assume fe: "first_eligible (price so) (buy_orders ?b) (buy_count ?b) j bo"
    then have bo: "buy_orders ?b ! j = Some bo" "active bo" "float_ge (price bo) (price so)"
      by (simp_all add: first_eligible_def)
    from first_eligible_split[OF fe]
    have sp: "[0..<buy_count ?b] = [0..<j] @ j # [Suc j..<buy_count ?b]"
      and pre: "\<forall>k\<in>set [0..<j]. \<not> buy_eligible (price so) (buy_orders ?b ! k)" by simp_all
    have "break_index t (price so) (int i) ([0..<j] @ j # [Suc j..<buy_count ?b]) ?b = Some j"
      by (rule break_index_first[OF so pre bo])
    then show "matched_pair t books = Some (j, i)" using m sp by simp
  next
    assume "\<forall>j<buy_count ?b. \<not> buy_eligible (price so) (buy_orders ?b ! j)"
    then have "\<forall>j\<in>set [0..<buy_count ?b]. \<not> buy_eligible (price so) (buy_orders ?b ! j)"
      by simp
    then have "break_index t (price so) (int i) [0..<buy_count ?b] ?b = None"
      by (rule break_index_none)
    then show "matched_pair t books = None" using m by simp
  qed
qed

lemma matched_pair_no_sell:
  "lowest_sell (books ! nat t) = (PosInf, - 1) \<Longrightarrow> matched_pair t books = None"
  by (simp add: matched_pair_def Let_def)

lemma matched_pair_printed:
  "matched_pair t books = None \<longleftrightarrow> fst (snd (matchOrder t books)) = []"
proof (cases "t < 0 \<or> t \<ge> MAX_TICKERS")
  case True
  then show ?thesis by (simp add: matched_pair_def matchOrder_def)
next
  case False
  obtain l li where ls: "lowest_sell (books ! nat t) = (l, li)"
    by (cases "lowest_sell (books ! nat t)")
  show ?thesis
  proof (cases "li = - 1")
    case True
    then show ?thesis using False ls
      by (auto simp: matched_pair_def matchOrder_def Let_def)
  next
    case nt: False
    let ?b = "books ! nat t"
    have "matched_pair t books = None \<longleftrightarrow>
            break_index t l li [0..<buy_count ?b] ?b = None"
      using False ls nt by (simp add: matched_pair_def Let_def split: option.splits)
    moreover have "fst (snd (matchOrder t books)) = fst (buy_scan t l li [0..<buy_count ?b] ?b)"
      using False ls nt by (simp add: matchOrder_def Let_def split: prod.splits)
    ultimately show ?thesis by (simp add: break_index_printed)
  qed
qed

section \<open>The scenario state\<close>

lemma upt2: "[0..<2] = [0, 1]"
  by (simp add: upt_rec)

lemma scenario_book:
  "scenario = orderBooks[5 :=
     \<lparr>buy_orders = (replicate MAX_ORDERS_PER_SIDE None)
        [0 := Some \<lparr>active = True, order_type = 0, ticker = 5, quantity = 10, price = Fin 60\<rparr>],
      sell_orders = (replicate MAX_ORDERS_PER_SIDE None)
        [0 := Some \<lparr>active = True, order_type = 1, ticker = 5, quantity = 10, price = Fin 50\<rparr>,
         1 := Some \<lparr>active = True, order_type = 1, ticker = 5, quantity = 10, price = Fin 40\<rparr>],
      buy_count = 1, sell_count = 2\<rparr>]"
  by (simp add: scenario_def exec_def addOrder_def Let_def store_buy_def store_sell_def
      advance_buy_count_def advance_sell_count_def Order_def orderBooks_def OrderBook_def
      MAX_TICKERS_def MAX_ORDERS_PER_SIDE_def numeral_2_eq_2[symmetric])

lemma scenario_5:
  "scenario ! 5 =
     \<lparr>buy_orders = (replicate MAX_ORDERS_PER_SIDE None)
        [0 := Some \<lparr>active = True, order_type = 0, ticker = 5, quantity = 10, price = Fin 60\<rparr>],
      sell_orders = (replicate MAX_ORDERS_PER_SIDE None)
        [0 := Some \<lparr>active = True, order_type = 1, ticker = 5, quantity = 10, price = Fin 50\<rparr>,
         1 := Some \<lparr>active = True, order_type = 1, ticker = 5, quantity = 10, price = Fin 40\<rparr>],
      buy_count = 1, sell_count = 2\<rparr>"
  by (simp add: scenario_book orderBooks_def MAX_TICKERS_def)

lemma scenario_lowest_sell: "lowest_sell (scenario ! 5) = (Fin 40, 1)"
  by (simp add: scenario_5 lowest_sell_def upt2 sell_step_def MAX_ORDERS_PER_SIDE_def)

lemma scenario_match:
  "matchOrder 5 scenario =
     (None, [\<lparr>m_ticker = 5, buyPrice = Fin 60, sellPrice = Fin 40, m_quantity = 10\<rparr>],
      scenario[5 := settled (scenario ! 5) 0 1])"
  by (simp add: matchOrder_def scenario_lowest_sell MAX_TICKERS_def)
    (simp add: scenario_5 buy_step_def settled_def deactivate_def MAX_ORDERS_PER_SIDE_def
      float_ge_def)

lemma scenario_inv: "books_inv scenario"
  unfolding scenario_def using exec_inv_ext[OF books_inv_orderBooks] by simp

section \<open>Orders that are no longer active\<close>

lemma book_inv_side: "book_inv b \<Longrightarrow> slots_inv (side_slots sd b) (side_count sd b)"
  by (cases sd) (simp_all add: book_inv_def)

lemma book_ext_side:
  "book_ext b b' \<Longrightarrow>
     slots_ext (side_slots sd b) (side_count sd b) (side_slots sd b') (side_count sd b')"
  by (cases sd) (simp_all add: book_ext_def)

lemma matched_pair_SomeD:
  assumes "matched_pair t books = Some (j, i)"
  shows "0 \<le> t \<and> t < MAX_TICKERS
         \<and> (\<exists>so bo. lowest_active (sell_orders (books ! nat t)) (sell_count (books ! nat t)) i so
               \<and> first_eligible (price so) (buy_orders (books ! nat t))
                    (buy_count (books ! nat t)) j bo)"
proof -
  let ?b = "books ! nat t"
  have t: "0 \<le> t" "t < MAX_TICKERS"
    using assms by (auto simp: matched_pair_def split: if_splits)
  from lowest_sell_char[of ?b] show ?thesis
  proof
    assume "lowest_sell ?b = (PosInf, - 1) \<and> (\<forall>j<sell_count ?b. \<not> below_inf (sell_orders ?b ! j))"
    then have "matched_pair t books = None" by (simp add: matched_pair_no_sell)
    with assms show ?thesis by simp
  next
    assume "\<exists>i ord. lowest_sell ?b = (price ord, int i)
              \<and> lowest_active (sell_orders ?b) (sell_count ?b) i ord"
    then obtain i0 and so :: order where ls: "lowest_sell ?b = (price so, int i0)"
      and la: "lowest_active (sell_orders ?b) (sell_count ?b) i0 so" by blast
    note mp = matched_pair_char[OF t ls la]
    show ?thesis
    proof (cases "\<exists>j0 bo. first_eligible (price so) (buy_orders ?b) (buy_count ?b) j0 bo")
      case True
      then obtain j0 bo where fe: "first_eligible (price so) (buy_orders ?b) (buy_count ?b) j0 bo"
        by blast
      then have "matched_pair t books = Some (j0, i0)" using mp by blast
      with assms have "j0 = j" "i0 = i" by simp_all
      with la fe t show ?thesis by blast
    next
      case False
      have "\<forall>j<buy_count ?b. \<not> buy_eligible (price so) (buy_orders ?b ! j)"
      proof (rule ccontr)
        assume "\<not> (\<forall>j<buy_count ?b. \<not> buy_eligible (price so) (buy_orders ?b ! j))"
        then obtain j1 where j1: "j1 < buy_count ?b \<and> buy_eligible (price so) (buy_orders ?b ! j1)"
          and least: "\<forall>k<j1. \<not> (k < buy_count ?b \<and> buy_eligible (price so) (buy_orders ?b ! k))"
          using exists_least_iff[of "\<lambda>j. j < buy_count ?b \<and> buy_eligible (price so) (buy_orders ?b ! j)"]
          by blast
        from j1 obtain bo where "buy_orders ?b ! j1 = Some bo" "active bo" "float_ge (price bo) (price so)"
          by (auto simp: buy_eligible_def split: option.splits)
        then have "first_eligible (price so) (buy_orders ?b) (buy_count ?b) j1 bo"
          using j1 least by (auto simp: first_eligible_def)
        with False show False by blast
      qed
      then have "matched_pair t books = None" using mp by blast
      with assms show ?thesis by simp
    qed
  qed
qed

lemma lowest_sell_index_active:
  "snd (lowest_sell b) = int i \<Longrightarrow> is_active (sell_orders b ! i)"
  using lowest_sell_char[of b] by (auto simp: lowest_active_def is_active_def)

lemma scenario_after_match:
  "step (MatchOrder 5) scenario ! 5 =
     \<lparr>buy_orders = (replicate MAX_ORDERS_PER_SIDE None)
        [0 := Some \<lparr>active = False, order_type = 0, ticker = 5, quantity = 10, price = Fin 60\<rparr>],
      sell_orders = (replicate MAX_ORDERS_PER_SIDE None)
        [0 := Some \<lparr>active = True, order_type = 1, ticker = 5, quantity = 10, price = Fin 50\<rparr>,
         1 := Some \<lparr>active = False, order_type = 1, ticker = 5, quantity = 10, price = Fin 40\<rparr>],
      buy_count = 1, sell_count = 2\<rparr>"
proof -
  have l: "length scenario = 1024"
    by (simp add: scenario_book orderBooks_def MAX_TICKERS_def)
  have "step (MatchOrder 5) scenario ! 5 = settled (scenario ! 5) 0 1"
    using l by (simp add: scenario_match)
  then show ?thesis
    by (simp add: scenario_5 settled_def deactivate_def MAX_ORDERS_PER_SIDE_def)
qed

section \<open>Counting insertions\<close>

text \<open>
  The counter of a side is the number of insertions that succeeded on it: an
  \<^verbatim>\<open>addOrder\<close> call raises it by one exactly when the ticker is in range and the side is
  not full, and \<^verbatim>\<open>matchOrder\<close> never touches it.
\<close>

lemma addOrder_count:
  assumes "books_inv books" "k < nat MAX_TICKERS"
  shows "side_count sd (snd (addOrder ot t q p books) ! k) =
           side_count sd (books ! k) +
             (if 0 \<le> t \<and> t < MAX_TICKERS \<and> nat t = k \<and> side_of ot = sd
                 \<and> side_count sd (books ! k) < MAX_ORDERS_PER_SIDE then 1 else 0)"
proof (cases "0 \<le> t \<and> t < MAX_TICKERS \<and> side_count (side_of ot) (books ! nat t) < MAX_ORDERS_PER_SIDE")
  case False
  then have "addOrder ot t q p books = (None, books)"
    by (auto simp: addOrder_def side_of_def Let_def)
  with False show ?thesis by auto
next
  case True
  then have t: "0 \<le> t" "t < MAX_TICKERS" by simp_all
  have kl: "nat t < length books" "k < length books" using assms t by (simp_all add: books_inv_def)
  show ?thesis
  proof (cases "ot = 0")
    case z: True
    with True have c: "buy_count (books ! nat t) < MAX_ORDERS_PER_SIDE" by (simp add: side_of_def)
    show ?thesis
      using addOrder_buy_eq[OF t c kl(1), of q p] z kl t c
      by (cases sd) (auto simp: nth_list_update side_of_def)
  next
    case nz: False
    with True have c: "sell_count (books ! nat t) < MAX_ORDERS_PER_SIDE" by (simp add: side_of_def)
    show ?thesis
      using addOrder_sell_eq[OF t c kl(1) nz, of q p] nz kl t c
      by (cases sd) (auto simp: nth_list_update side_of_def)
  qed
qed

lemma matchOrder_count:
  "side_count sd (snd (snd (matchOrder t books)) ! k) = side_count sd (books ! k)"
  using matchOrder_state[of t books]
proof
  assume "snd (snd (matchOrder t books)) = books"
  then show ?thesis by simp
next
  assume "0 \<le> t \<and> t < MAX_TICKERS
       \<and> (\<exists>j i. snd (snd (matchOrder t books)) = books[nat t := settled (books ! nat t) j i])"
  then obtain j i where
    eq: "snd (snd (matchOrder t books)) = books[nat t := settled (books ! nat t) j i]" by blast
  show ?thesis
  proof (cases "nat t < length books")
    case True
    then show ?thesis unfolding eq
      by (cases sd) (auto simp: nth_list_update settled_def)
  next
    case False
    then have "books[nat t := settled (books ! nat t) j i] = books"
      by (simp add: list_update_beyond)
    then show ?thesis unfolding eq by simp
  qed
qed

lemma step_count:
  assumes "books_inv books" "k < nat MAX_TICKERS"
  shows "side_count sd (step c books ! k) =
           side_count sd (books ! k) + (if is_insert k sd c books then 1 else 0)"
proof (cases c)
  case (AddOrder ot t q p)
  let ?g = "0 \<le> t \<and> t < MAX_TICKERS \<and> nat t = k \<and> side_of ot = sd
              \<and> side_count sd (books ! k) < MAX_ORDERS_PER_SIDE"
  have e: "side_count sd (step (AddOrder ot t q p) books ! k) =
             side_count sd (books ! k) + (if ?g then 1 else 0)"
    using addOrder_count[OF assms, of sd ot t q p] by simp
  have "is_insert k sd (AddOrder ot t q p) books \<longleftrightarrow> ?g"
  proof (cases ?g)
    case True
    then show ?thesis unfolding is_insert.simps e by simp
  next
    case False
    then show ?thesis unfolding is_insert.simps e by simp
  qed
  then show ?thesis unfolding AddOrder e by simp
next
  case (MatchOrder t)
  show ?thesis unfolding MatchOrder by (simp add: matchOrder_count)
qed

lemma exec_count:
  assumes "books_inv books" "k < nat MAX_TICKERS"
  shows "side_count sd (exec cs books ! k) = side_count sd (books ! k) + insertions k sd cs books"
  using assms(1)
proof (induction cs arbitrary: books)
  case Nil
  then show ?case by (simp add: exec_Nil)
next
  case (Cons c cs)
  have i: "books_inv (step c books)" using step_inv_ext[OF Cons.prems] by simp
  show ?case
    using Cons.IH[OF i] step_count[OF Cons.prems assms(2), of sd c]
    by (simp add: exec_Cons)
qed

lemma orderBooks_count: "k < nat MAX_TICKERS \<Longrightarrow> side_count sd (orderBooks ! k) = 0"
  by (cases sd) (simp_all add: orderBooks_nth OrderBook_def)

lemma insertions_replicate:
  assumes "0 \<le> t" "t < MAX_TICKERS"
  shows "books_inv books \<Longrightarrow>
         side_count (side_of ot) (books ! nat t) + n \<le> MAX_ORDERS_PER_SIDE \<Longrightarrow>
         insertions (nat t) (side_of ot) (replicate n (AddOrder ot t q p)) books = n"
proof (induction n arbitrary: books)
  case 0
  then show ?case by simp
next
  case (Suc n)
  have k: "nat t < nat MAX_TICKERS" using assms by simp
  have c: "side_count (side_of ot) (books ! nat t) < MAX_ORDERS_PER_SIDE" using Suc.prems by simp
  have sc: "side_count (side_of ot) (step (AddOrder ot t q p) books ! nat t) =
              side_count (side_of ot) (books ! nat t) + 1"
    using addOrder_count[OF Suc.prems(1) k, of "side_of ot" ot t q p] assms c by simp
  have ins: "is_insert (nat t) (side_of ot) (AddOrder ot t q p) books"
    using sc assms by simp
  have i: "books_inv (step (AddOrder ot t q p) books)" using step_inv_ext[OF Suc.prems(1), of "AddOrder ot t q p"] by simp
  have "insertions (nat t) (side_of ot) (replicate n (AddOrder ot t q p))
          (step (AddOrder ot t q p) books) = n"
    using Suc.IH[OF i] sc Suc.prems(2) by simp
  then show ?case using ins by simp
qed

lemma full_buy_side_insertions:
  "insertions (nat 5) (side_of 0) (replicate MAX_ORDERS_PER_SIDE (AddOrder 0 5 10 (Fin 1))) orderBooks =
     MAX_ORDERS_PER_SIDE"
proof -
  have h: "(0::int) \<le> 5" "5 < MAX_TICKERS" by (simp_all add: MAX_TICKERS_def)
  have k: "(5::nat) < nat MAX_TICKERS" by (simp add: MAX_TICKERS_def)
  have "side_count (side_of 0) (orderBooks ! nat 5) + MAX_ORDERS_PER_SIDE \<le> MAX_ORDERS_PER_SIDE"
    by (simp add: orderBooks_count[OF k])
  then show ?thesis
    by (rule insertions_replicate[OF h books_inv_orderBooks])
qed

section \<open>Threads\<close>

text \<open>
  A thread that runs its three statements without interruption does what \<^verbatim>\<open>addOrder\<close>
  does, and two calls that run one after the other keep both orders.
\<close>

lemma thread_runs_addOrder:
  "interleave [0, 0, 0] [add_call ot t q p] books =
     ([(add_call ot t q p)\<lparr>th_pc := AtEnd\<rparr>], snd (addOrder ot t q p books))"
  by (simp add: thread_step_def add_call_def addOrder_def Let_def)

lemma lost_schedule:
  "interleave [0, 1, 1, 1, 0, 0] [add_call 0 5 10 (Fin 1), add_call 0 5 20 (Fin 2)] orderBooks =
     ([(add_call 0 5 10 (Fin 1))\<lparr>th_pc := AtEnd\<rparr>, (add_call 0 5 20 (Fin 2))\<lparr>th_pc := AtEnd\<rparr>],
      orderBooks[5 := OrderBook
        \<lparr>buy_orders := (replicate MAX_ORDERS_PER_SIDE None)
           [0 := Some \<lparr>active = True, order_type = 0, ticker = 5, quantity = 10, price = Fin 1\<rparr>],
         buy_count := 2\<rparr>])"
  by (simp add: thread_step_def add_call_def Let_def store_buy_def advance_buy_count_def
      Order_def orderBooks_def OrderBook_def MAX_TICKERS_def MAX_ORDERS_PER_SIDE_def
      numeral_2_eq_2[symmetric])

lemma sequential_schedule:
  "snd (interleave [0, 0, 0, 1, 1, 1] [add_call 0 5 10 (Fin 1), add_call 0 5 20 (Fin 2)] orderBooks) =
     exec [AddOrder 0 5 10 (Fin 1), AddOrder 0 5 20 (Fin 2)] orderBooks"
  by (simp add: thread_step_def add_call_def Let_def exec_def addOrder_def
      orderBooks_def OrderBook_def MAX_TICKERS_def MAX_ORDERS_PER_SIDE_def
      store_buy_def advance_buy_count_def)

section \<open>Claims\<close>

subsection \<open>Tickers out of range\<close>

text \<open>
  Claim C5, as the code has it. For every ticker outside the range from 0 up to (not
  including) \<^verbatim>\<open>MAX_TICKERS\<close>, \<^verbatim>\<open>addOrder\<close> and \<^verbatim>\<open>matchOrder\<close> leave every book as it
  is and \<^verbatim>\<open>matchOrder\<close> prints nothing. Both hand back \<^verbatim>\<open>None\<close>, as they do on every
  other path; no \<open>InvalidTicker\<close> value is returned.
\<close>

theorem invalid_ticker_no_effect:
  "t < 0 \<or> t \<ge> MAX_TICKERS \<Longrightarrow>
     addOrder ot t q p books = (None, books) \<and> matchOrder t books = (None, [], books)"
  by (simp add: addOrder_def matchOrder_def)

theorem invalid_ticker_no_effect_witness:
  "((- 1 :: int) < 0 \<or> (- 1) \<ge> MAX_TICKERS) \<and>
   addOrder 0 (- 1) 10 (Fin 1) orderBooks = (None, orderBooks) \<and>
   matchOrder (- 1) orderBooks = (None, [], orderBooks) \<and>
   addOrder 1 1024 10 (Fin 1) orderBooks = (None, orderBooks) \<and>
   matchOrder 1024 orderBooks = (None, [], orderBooks)"
  using invalid_ticker_no_effect [of "- 1" 0 10 "Fin 1" orderBooks]
    invalid_ticker_no_effect [of 1024 1 10 "Fin 1" orderBooks]
  by (simp add: MAX_TICKERS_def)

text \<open>
  Claim C5 as stated fails at ticker \<open>-1\<close>: neither call returns \<open>InvalidTicker\<close>.
\<close>

theorem invalid_ticker_returns_counterexample:
  "fst (addOrder 0 (- 1) 10 (Fin 1) orderBooks) \<noteq> Some InvalidTicker \<and>
   fst (matchOrder (- 1) orderBooks) \<noteq> Some InvalidTicker"
  by (simp add: addOrder_def matchOrder_def)

subsection \<open>Insertion\<close>

text \<open>
  Claim C3. In a state that satisfies the order-book invariant, \<^verbatim>\<open>addOrder(0, t, q, p)\<close>
  for a ticker in range whose buy side is not full does exactly this: it stores a new
  order with \<open>active = True\<close>, quantity \<open>q\<close> and price \<open>p\<close> at the index the buy counter
  had, and advances the buy counter by one. Every other buy slot, the sell side of the
  book and every other book are as before.

  The store comes before the advance. Statement by statement, the call first reads the
  counter \<open>n\<close> and changes nothing; its second statement writes the order into slot \<open>n\<close>
  and leaves the counter at \<open>n\<close>; its third statement sets the counter to \<open>n + 1\<close> and
  gives the state that \<^verbatim>\<open>addOrder\<close> returns. So in the state between the two writes the
  order is already in its slot, and in every state of the call each slot below the
  counter holds an order.
\<close>

theorem addOrder_buy_effect:
  assumes "books_inv books" "0 \<le> t" "t < MAX_TICKERS"
    and "buy_count (books ! nat t) < MAX_ORDERS_PER_SIDE"
  shows "let book = books ! nat t;
             n = buy_count book;
             new = \<lparr>active = True, order_type = 0, ticker = t, quantity = q, price = p\<rparr>;
             stored = store_buy (nat t) n (Order 0 t q p) books;
             books' = snd (addOrder 0 t q p books);
             book' = books' ! nat t;
             call = add_call 0 t q p
         in books' = advance_buy_count (nat t) stored
            \<and> buy_orders (stored ! nat t) ! n = Some new
            \<and> buy_count (stored ! nat t) = n
            \<and> buy_count book' = n + 1
            \<and> buy_orders book' ! n = Some new
            \<and> books' = books[nat t := book\<lparr>buy_orders := (buy_orders book)[n := Some new],
                                            buy_count := n + 1\<rparr>]
            \<and> (\<forall>i. i \<noteq> n \<longrightarrow> buy_orders book' ! i = buy_orders book ! i)
            \<and> length (buy_orders book') = length (buy_orders book)
            \<and> sell_orders book' = sell_orders book
            \<and> sell_count book' = sell_count book
            \<and> length books' = length books
            \<and> (\<forall>k. k \<noteq> nat t \<longrightarrow> books' ! k = books ! k)
            \<and> thread_step call books = (call\<lparr>th_pc := AtStore n\<rparr>, books)
            \<and> thread_step (call\<lparr>th_pc := AtStore n\<rparr>) books =
                (call\<lparr>th_pc := AtAdvance\<rparr>, stored)
            \<and> thread_step (call\<lparr>th_pc := AtAdvance\<rparr>) stored =
                (call\<lparr>th_pc := AtEnd\<rparr>, books')
            \<and> stored \<noteq> books'
            \<and> (\<forall>i<buy_count (stored ! nat t). buy_orders (stored ! nat t) ! i \<noteq> None)
            \<and> (\<forall>i<buy_count book'. buy_orders book' ! i \<noteq> None)"
proof -
  let ?b = "books ! nat t"
  let ?n = "buy_count ?b"
  let ?stored = "store_buy (nat t) ?n (Order 0 t q p) books"
  let ?c = "add_call 0 t q p"
  have kl: "nat t < length books" using assms by (simp add: books_inv_def)
  have bi: "book_inv ?b" using assms by (simp add: books_inv_nth)
  then have si: "slots_inv (buy_orders ?b) ?n" by (simp add: book_inv_def)
  then have nl: "?n < length (buy_orders ?b)"
    using assms(4) by (simp add: slots_inv_def)
  have eq: "snd (addOrder 0 t q p books) =
              books[nat t := ?b\<lparr>buy_orders := (buy_orders ?b)[?n := Some (Order 0 t q p)],
                                 buy_count := ?n + 1\<rparr>]"
    using addOrder_buy_eq[OF assms(2,3,4) kl, of q p] by simp
  have st: "snd (addOrder 0 t q p books) = advance_buy_count (nat t) ?stored"
    using assms by (simp add: addOrder_def Let_def)
  have effect: "snd (addOrder 0 t q p books) = advance_buy_count (nat t) ?stored
            \<and> buy_orders (?stored ! nat t) ! ?n =
                Some \<lparr>active = True, order_type = 0, ticker = t, quantity = q, price = p\<rparr>
            \<and> buy_count (?stored ! nat t) = ?n
            \<and> buy_count (snd (addOrder 0 t q p books) ! nat t) = ?n + 1
            \<and> buy_orders (snd (addOrder 0 t q p books) ! nat t) ! ?n =
                Some \<lparr>active = True, order_type = 0, ticker = t, quantity = q, price = p\<rparr>
            \<and> snd (addOrder 0 t q p books) =
                books[nat t := ?b\<lparr>buy_orders := (buy_orders ?b)
                   [?n := Some \<lparr>active = True, order_type = 0, ticker = t, quantity = q,
                                 price = p\<rparr>],
                   buy_count := ?n + 1\<rparr>]
            \<and> (\<forall>i. i \<noteq> ?n \<longrightarrow>
                  buy_orders (snd (addOrder 0 t q p books) ! nat t) ! i = buy_orders ?b ! i)
            \<and> length (buy_orders (snd (addOrder 0 t q p books) ! nat t)) = length (buy_orders ?b)
            \<and> sell_orders (snd (addOrder 0 t q p books) ! nat t) = sell_orders ?b
            \<and> sell_count (snd (addOrder 0 t q p books) ! nat t) = sell_count ?b
            \<and> length (snd (addOrder 0 t q p books)) = length books
            \<and> (\<forall>k. k \<noteq> nat t \<longrightarrow> snd (addOrder 0 t q p books) ! k = books ! k)"
    unfolding st[symmetric] eq
    using kl nl by (simp add: store_buy_def Order_def nth_list_update)
  have s1: "thread_step ?c books = (?c\<lparr>th_pc := AtStore ?n\<rparr>, books)"
    using assms(2,3) by (simp add: thread_step_def add_call_def Let_def)
  have s2: "thread_step (?c\<lparr>th_pc := AtStore ?n\<rparr>) books = (?c\<lparr>th_pc := AtAdvance\<rparr>, ?stored)"
    using assms(4) by (simp add: thread_step_def add_call_def Let_def)
  have s3: "thread_step (?c\<lparr>th_pc := AtAdvance\<rparr>) ?stored =
              (?c\<lparr>th_pc := AtEnd\<rparr>, snd (addOrder 0 t q p books))"
    unfolding st by (simp add: thread_step_def add_call_def)
  have cs: "buy_count (?stored ! nat t) = ?n" "buy_orders (?stored ! nat t) = (buy_orders ?b)[?n := Some (Order 0 t q p)]"
    using kl by (simp_all add: store_buy_def)
  have c': "buy_count (snd (addOrder 0 t q p books) ! nat t) = ?n + 1"
    using effect by blast
  have ne: "?stored \<noteq> snd (addOrder 0 t q p books)"
  proof
    assume h: "?stored = snd (addOrder 0 t q p books)"
    have "buy_count (?stored ! nat t) = ?n + 1" unfolding h by (rule c')
    with cs(1) show False by simp
  qed
  have below: "\<forall>i<?n. buy_orders ?b ! i \<noteq> None"
    using si unfolding slots_inv_nth by blast
  have p1: "\<forall>i<buy_count (?stored ! nat t). buy_orders (?stored ! nat t) ! i \<noteq> None"
    unfolding cs using below by (simp add: nth_list_update)
  have inv': "books_inv (snd (addOrder 0 t q p books))"
    using addOrder_inv_ext[OF assms(1)] by simp
  then have "book_inv (snd (addOrder 0 t q p books) ! nat t)"
    using assms(2,3) by (simp add: books_inv_nth)
  then have p2: "\<forall>i<buy_count (snd (addOrder 0 t q p books) ! nat t).
                   buy_orders (snd (addOrder 0 t q p books) ! nat t) ! i \<noteq> None"
    unfolding book_inv_def slots_inv_nth by blast
  show ?thesis
    unfolding Let_def using effect s1 s2 s3 ne p1 p2 by blast
qed

theorem addOrder_buy_effect_witness:
  "books_inv orderBooks \<and> (0::int) \<le> 5 \<and> 5 < MAX_TICKERS
   \<and> buy_count (orderBooks ! nat 5) < MAX_ORDERS_PER_SIDE
   \<and> buy_count (snd (addOrder 0 5 10 (Fin 60) orderBooks) ! 5) = 1
   \<and> buy_orders (snd (addOrder 0 5 10 (Fin 60) orderBooks) ! 5) ! 0 =
        Some \<lparr>active = True, order_type = 0, ticker = 5, quantity = 10, price = Fin 60\<rparr>
   \<and> sell_count (snd (addOrder 0 5 10 (Fin 60) orderBooks) ! 5) = 0
   \<and> thread_step ((add_call 0 5 10 (Fin 60))\<lparr>th_pc := AtStore 0\<rparr>) orderBooks =
       ((add_call 0 5 10 (Fin 60))\<lparr>th_pc := AtAdvance\<rparr>,
        store_buy 5 0 (Order 0 5 10 (Fin 60)) orderBooks)
   \<and> buy_count (store_buy 5 0 (Order 0 5 10 (Fin 60)) orderBooks ! 5) = 0
   \<and> buy_orders (store_buy 5 0 (Order 0 5 10 (Fin 60)) orderBooks ! 5) ! 0 =
        Some \<lparr>active = True, order_type = 0, ticker = 5, quantity = 10, price = Fin 60\<rparr>"
proof -
  have h: "(0::int) \<le> 5" "5 < MAX_TICKERS" by (simp_all add: MAX_TICKERS_def)
  have b: "orderBooks ! 5 = OrderBook"
    by (simp add: orderBooks_def MAX_TICKERS_def)
  have c: "buy_count (orderBooks ! nat 5) < MAX_ORDERS_PER_SIDE"
    by (simp add: b OrderBook_def MAX_ORDERS_PER_SIDE_def)
  show ?thesis
    using addOrder_buy_effect [OF books_inv_orderBooks h c, of 10 "Fin 60"] h c books_inv_orderBooks
    unfolding Let_def by (elim conjE) (simp add: b OrderBook_def)
qed

text \<open>
  Claim C10. The ticker range is the only thing \<^verbatim>\<open>addOrder\<close> checks. For a ticker in
  range and a target side that is not full, any quantity and any price (zero and
  negative ones too) are stored as given in the new order, and any order type other
  than 0 puts the order on the sell side and leaves the buy side alone.
\<close>

theorem addOrder_accepts_any:
  assumes "books_inv books" "0 \<le> t" "t < MAX_TICKERS"
    and "side_count (side_of ot) (books ! nat t) < MAX_ORDERS_PER_SIDE"
  shows "let book = books ! nat t;
             new = \<lparr>active = True, order_type = ot, ticker = t, quantity = q, price = p\<rparr>;
             book' = snd (addOrder ot t q p books) ! nat t
         in (ot \<noteq> 0 \<longrightarrow>
               sell_orders book' ! sell_count book = Some new
               \<and> sell_count book' = sell_count book + 1
               \<and> buy_orders book' = buy_orders book
               \<and> buy_count book' = buy_count book)
            \<and> (ot = 0 \<longrightarrow>
               buy_orders book' ! buy_count book = Some new
               \<and> buy_count book' = buy_count book + 1
               \<and> sell_orders book' = sell_orders book
               \<and> sell_count book' = sell_count book)"
proof -
  let ?b = "books ! nat t"
  have kl: "nat t < length books" using assms by (simp add: books_inv_def)
  have bi: "book_inv ?b" using assms by (simp add: books_inv_nth)
  show ?thesis
  proof (cases "ot = 0")
    case True
    then have c: "buy_count ?b < MAX_ORDERS_PER_SIDE" using assms(4) by (simp add: side_of_def)
    then have nl: "buy_count ?b < length (buy_orders ?b)"
      using bi by (simp add: book_inv_def slots_inv_def)
    show ?thesis
      using True kl nl addOrder_buy_eq[OF assms(2,3) c kl, of q p]
      by (simp add: Let_def Order_def)
  next
    case False
    then have c: "sell_count ?b < MAX_ORDERS_PER_SIDE" using assms(4) by (simp add: side_of_def)
    then have nl: "sell_count ?b < length (sell_orders ?b)"
      using bi by (simp add: book_inv_def slots_inv_def)
    show ?thesis
      using False kl nl addOrder_sell_eq[OF assms(2,3) c kl False, of q p]
      by (simp add: Let_def Order_def)
  qed
qed

theorem addOrder_accepts_any_witness:
  "books_inv orderBooks \<and> (0::int) \<le> 7 \<and> 7 < MAX_TICKERS
   \<and> side_count (side_of 2) (orderBooks ! nat 7) < MAX_ORDERS_PER_SIDE
   \<and> side_count (side_of 0) (orderBooks ! nat 7) < MAX_ORDERS_PER_SIDE
   \<and> sell_orders (snd (addOrder 2 7 0 (Fin (- 1)) orderBooks) ! 7) ! 0 =
        Some \<lparr>active = True, order_type = 2, ticker = 7, quantity = 0, price = Fin (- 1)\<rparr>
   \<and> sell_count (snd (addOrder 2 7 0 (Fin (- 1)) orderBooks) ! 7) = 1
   \<and> buy_count (snd (addOrder 2 7 0 (Fin (- 1)) orderBooks) ! 7) = 0
   \<and> buy_orders (snd (addOrder 0 7 (- 5) (Fin 0) orderBooks) ! 7) ! 0 =
        Some \<lparr>active = True, order_type = 0, ticker = 7, quantity = - 5, price = Fin 0\<rparr>"
proof -
  have h: "(0::int) \<le> 7" "7 < MAX_TICKERS" by (simp_all add: MAX_TICKERS_def)
  have b: "orderBooks ! 7 = OrderBook"
    by (simp add: orderBooks_def MAX_TICKERS_def)
  have c: "side_count (side_of 2) (orderBooks ! nat 7) < MAX_ORDERS_PER_SIDE"
    "side_count (side_of 0) (orderBooks ! nat 7) < MAX_ORDERS_PER_SIDE"
    by (simp_all add: b OrderBook_def MAX_ORDERS_PER_SIDE_def side_of_def)
  show ?thesis
    using addOrder_accepts_any [OF books_inv_orderBooks h c(1), of 0 "Fin (- 1)"]
      addOrder_accepts_any [OF books_inv_orderBooks h c(2), of "- 5" "Fin 0"]
      h c books_inv_orderBooks
    unfolding Let_def by (elim conjE) (simp add: b OrderBook_def)
qed

subsection \<open>Matching\<close>

text \<open>
  Claim C1 does not hold of the code. After \<^verbatim>\<open>addOrder(1, 5, 10, float('inf'))\<close> on the
  initial state, ticker 5 has one active sell order, which is then the active sell order
  of lowest price. The first loop of \<^verbatim>\<open>matchOrder(5)\<close> compares its price with the
  start value \<^verbatim>\<open>float('inf')\<close> by \<^verbatim>\<open><\<close>, which is false, so it ends with
  \<^verbatim>\<open>lowest_sell_index\<close> at \<open>-1\<close> and the call returns on line 78 without selecting the
  order. This stays so when a buy order at the same price is present, whose price is at
  least the sell price: nothing is printed and both orders stay active.
\<close>

theorem infinite_price_sell_not_selected:
  "(let books = exec [AddOrder 1 5 10 PosInf] orderBooks in
      sell_count (books ! 5) = 1
      \<and> sell_orders (books ! 5) ! 0 =
          Some \<lparr>active = True, order_type = 1, ticker = 5, quantity = 10, price = PosInf\<rparr>
      \<and> lowest_sell (books ! 5) = (PosInf, - 1)
      \<and> matched_pair 5 books = None
      \<and> matchOrder 5 books = (None, [], books))
   \<and> (let books = exec [AddOrder 1 5 10 PosInf, AddOrder 0 5 10 PosInf] orderBooks in
      sell_orders (books ! 5) ! 0 =
          Some \<lparr>active = True, order_type = 1, ticker = 5, quantity = 10, price = PosInf\<rparr>
      \<and> buy_orders (books ! 5) ! 0 =
          Some \<lparr>active = True, order_type = 0, ticker = 5, quantity = 10, price = PosInf\<rparr>
      \<and> float_ge PosInf PosInf
      \<and> lowest_sell (books ! 5) = (PosInf, - 1)
      \<and> matchOrder 5 books = (None, [], books))"
proof -
  let ?s1 = "exec [AddOrder 1 5 10 PosInf] orderBooks"
  let ?s2 = "exec [AddOrder 1 5 10 PosInf, AddOrder 0 5 10 PosInf] orderBooks"
  have b1: "?s1 ! 5 =
     \<lparr>buy_orders = replicate MAX_ORDERS_PER_SIDE None,
      sell_orders = (replicate MAX_ORDERS_PER_SIDE None)
        [0 := Some \<lparr>active = True, order_type = 1, ticker = 5, quantity = 10, price = PosInf\<rparr>],
      buy_count = 0, sell_count = 1\<rparr>"
    by (simp add: exec_def addOrder_def Let_def store_sell_def advance_sell_count_def
        Order_def orderBooks_def OrderBook_def MAX_TICKERS_def MAX_ORDERS_PER_SIDE_def)
  have b2: "?s2 ! 5 =
     \<lparr>buy_orders = (replicate MAX_ORDERS_PER_SIDE None)
        [0 := Some \<lparr>active = True, order_type = 0, ticker = 5, quantity = 10, price = PosInf\<rparr>],
      sell_orders = (replicate MAX_ORDERS_PER_SIDE None)
        [0 := Some \<lparr>active = True, order_type = 1, ticker = 5, quantity = 10, price = PosInf\<rparr>],
      buy_count = 1, sell_count = 1\<rparr>"
    by (simp add: exec_def addOrder_def Let_def store_sell_def advance_sell_count_def
        store_buy_def advance_buy_count_def
        Order_def orderBooks_def OrderBook_def MAX_TICKERS_def MAX_ORDERS_PER_SIDE_def)
  have l1: "lowest_sell (?s1 ! 5) = (PosInf, - 1)"
    unfolding b1 by (simp add: lowest_sell_def sell_step_def MAX_ORDERS_PER_SIDE_def)
  have l2: "lowest_sell (?s2 ! 5) = (PosInf, - 1)"
    unfolding b2 by (simp add: lowest_sell_def sell_step_def MAX_ORDERS_PER_SIDE_def)
  have m1: "matchOrder 5 ?s1 = (None, [], ?s1)"
    using l1 by (simp add: matchOrder_def MAX_TICKERS_def)
  have m2: "matchOrder 5 ?s2 = (None, [], ?s2)"
    using l2 by (simp add: matchOrder_def MAX_TICKERS_def)
  have p1: "matched_pair 5 ?s1 = None"
    using l1 by (simp add: matched_pair_def MAX_TICKERS_def)
  have v1: "sell_count (?s1 ! 5) = 1"
    "sell_orders (?s1 ! 5) ! 0 =
       Some \<lparr>active = True, order_type = 1, ticker = 5, quantity = 10, price = PosInf\<rparr>"
    unfolding b1 by (simp_all add: MAX_ORDERS_PER_SIDE_def)
  have v2: "sell_orders (?s2 ! 5) ! 0 =
       Some \<lparr>active = True, order_type = 1, ticker = 5, quantity = 10, price = PosInf\<rparr>"
    "buy_orders (?s2 ! 5) ! 0 =
       Some \<lparr>active = True, order_type = 0, ticker = 5, quantity = 10, price = PosInf\<rparr>"
    unfolding b2 by (simp_all add: MAX_ORDERS_PER_SIDE_def)
  have g: "float_ge PosInf PosInf" by (simp add: float_ge_def)
  show ?thesis
    unfolding Let_def using l1 l2 m1 m2 p1 v1 v2 g by blast
qed

text \<open>
  Claim C2. A call of \<^verbatim>\<open>matchOrder\<close> prints at most one match. A printed match pairs
  the selected sell order with the first buy order, in insertion order, that is active
  and whose price is at least the selected sell price; the record carries the ticker,
  that buy order's price, the sell price and the buy order's quantity (the sell
  order's quantity is not used), and its buy price is at least its sell price.
\<close>

theorem matchOrder_printed_match:
  assumes "books_inv books"
  shows "length (fst (snd (matchOrder t books))) \<le> 1
         \<and> (\<forall>m\<in>set (fst (snd (matchOrder t books))).
               \<exists>i so j bo.
                 0 \<le> t \<and> t < MAX_TICKERS
                 \<and> lowest_sell (books ! nat t) = (price so, int i)
                 \<and> lowest_active (sell_orders (books ! nat t)) (sell_count (books ! nat t)) i so
                 \<and> first_eligible (price so) (buy_orders (books ! nat t))
                      (buy_count (books ! nat t)) j bo
                 \<and> matched_pair t books = Some (j, i)
                 \<and> m = \<lparr>m_ticker = t, buyPrice = price bo, sellPrice = price so,
                         m_quantity = quantity bo\<rparr>
                 \<and> float_ge (buyPrice m) (sellPrice m)
                 \<and> snd (snd (matchOrder t books)) =
                      books[nat t := settled (books ! nat t) j i])"
proof (cases "0 \<le> t \<and> t < MAX_TICKERS")
  case False
  then have "matchOrder t books = (None, [], books)" by (auto simp: matchOrder_def)
  then show ?thesis by simp
next
  case True
  then have t: "0 \<le> t" "t < MAX_TICKERS" by simp_all
  let ?b = "books ! nat t"
  from matchOrder_char[OF t, of books] show ?thesis
  proof (elim disjE conjE exE)
    assume "matchOrder t books = (None, [], books)"
    then show ?thesis by simp
  next
    assume "matchOrder t books = (None, [], books)"
    then show ?thesis by simp
  next
    fix i j :: nat and so bo :: order
    assume la: "lowest_active (sell_orders ?b) (sell_count ?b) i so"
      and ls: "lowest_sell ?b = (price so, int i)"
      and fe: "first_eligible (price so) (buy_orders ?b) (buy_count ?b) j bo"
      and m: "matchOrder t books =
                (None, [\<lparr>m_ticker = t, buyPrice = price bo, sellPrice = price so,
                          m_quantity = quantity bo\<rparr>], books[nat t := settled ?b j i])"
    have mp: "matched_pair t books = Some (j, i)"
      using matched_pair_char[OF t ls la] fe by blast
    have ge: "float_ge (price bo) (price so)" using fe by (simp add: first_eligible_def)
    show ?thesis
      unfolding m using t ls la fe mp ge by auto
  qed
qed

theorem matchOrder_printed_match_witness:
  "books_inv scenario
   \<and> fst (snd (matchOrder 5 scenario)) =
       [\<lparr>m_ticker = 5, buyPrice = Fin 60, sellPrice = Fin 40, m_quantity = 10\<rparr>]
   \<and> length (fst (snd (matchOrder 5 scenario))) \<le> 1
   \<and> (\<exists>i so j bo.
         lowest_sell (scenario ! nat 5) = (price so, int i)
         \<and> lowest_active (sell_orders (scenario ! nat 5)) (sell_count (scenario ! nat 5)) i so
         \<and> first_eligible (price so) (buy_orders (scenario ! nat 5))
              (buy_count (scenario ! nat 5)) j bo
         \<and> matched_pair 5 scenario = Some (j, i)
         \<and> \<lparr>m_ticker = 5, buyPrice = Fin 60, sellPrice = Fin 40, m_quantity = 10\<rparr> =
             \<lparr>m_ticker = 5, buyPrice = price bo, sellPrice = price so,
               m_quantity = quantity bo\<rparr>)"
proof -
  have p: "fst (snd (matchOrder 5 scenario)) =
             [\<lparr>m_ticker = 5, buyPrice = Fin 60, sellPrice = Fin 40, m_quantity = 10\<rparr>]"
    by (simp add: scenario_match)
  show ?thesis
    using matchOrder_printed_match [OF scenario_inv, of 5] scenario_inv
    unfolding p by auto
qed

text \<open>
  Claim C7, as the code has it. From the initial state, after
  \<^verbatim>\<open>addOrder(1,5,10,50.0)\<close>, \<^verbatim>\<open>addOrder(1,5,10,40.0)\<close> and \<^verbatim>\<open>addOrder(0,5,10,60.0)\<close>,
  \<^verbatim>\<open>matchOrder(5)\<close> prints the match of ticker 5 with buy price 60, sell price 40 and
  quantity 10, and hands back \<^verbatim>\<open>None\<close>. Afterwards the sell order at 50 is still
  active; the sell order at 40 and the buy order are not.
\<close>

theorem scenario_prints_match:
  "matchOrder 5 (exec [AddOrder 1 5 10 (Fin 50), AddOrder 1 5 10 (Fin 40), AddOrder 0 5 10 (Fin 60)] orderBooks) =
     (None,
      [\<lparr>m_ticker = 5, buyPrice = Fin 60, sellPrice = Fin 40, m_quantity = 10\<rparr>],
      step (MatchOrder 5)
        (exec [AddOrder 1 5 10 (Fin 50), AddOrder 1 5 10 (Fin 40), AddOrder 0 5 10 (Fin 60)] orderBooks))
   \<and> sell_orders
        (exec [AddOrder 1 5 10 (Fin 50), AddOrder 1 5 10 (Fin 40), AddOrder 0 5 10 (Fin 60), MatchOrder 5]
           orderBooks ! 5) ! 0 =
       Some \<lparr>active = True, order_type = 1, ticker = 5, quantity = 10, price = Fin 50\<rparr>
   \<and> sell_orders
        (exec [AddOrder 1 5 10 (Fin 50), AddOrder 1 5 10 (Fin 40), AddOrder 0 5 10 (Fin 60), MatchOrder 5]
           orderBooks ! 5) ! 1 =
       Some \<lparr>active = False, order_type = 1, ticker = 5, quantity = 10, price = Fin 40\<rparr>
   \<and> buy_orders
        (exec [AddOrder 1 5 10 (Fin 50), AddOrder 1 5 10 (Fin 40), AddOrder 0 5 10 (Fin 60), MatchOrder 5]
           orderBooks ! 5) ! 0 =
       Some \<lparr>active = False, order_type = 0, ticker = 5, quantity = 10, price = Fin 60\<rparr>"
proof -
  have l: "length scenario = 1024"
    by (simp add: scenario_book orderBooks_def MAX_TICKERS_def)
  have e: "exec [AddOrder 1 5 10 (Fin 50), AddOrder 1 5 10 (Fin 40), AddOrder 0 5 10 (Fin 60), MatchOrder 5]
             orderBooks = step (MatchOrder 5) scenario"
    by (simp add: scenario_def exec_def)
  have s: "step (MatchOrder 5) scenario = scenario[5 := settled (scenario ! 5) 0 1]"
    by (simp add: scenario_match)
  have b: "settled (scenario ! 5) 0 (Suc 0) =
     \<lparr>buy_orders = (replicate MAX_ORDERS_PER_SIDE None)
        [0 := Some \<lparr>active = False, order_type = 0, ticker = 5, quantity = 10, price = Fin 60\<rparr>],
      sell_orders = (replicate MAX_ORDERS_PER_SIDE None)
        [0 := Some \<lparr>active = True, order_type = 1, ticker = 5, quantity = 10, price = Fin 50\<rparr>,
         1 := Some \<lparr>active = False, order_type = 1, ticker = 5, quantity = 10, price = Fin 40\<rparr>],
      buy_count = 1, sell_count = 2\<rparr>"
    by (simp add: scenario_5 settled_def deactivate_def MAX_ORDERS_PER_SIDE_def)
  show ?thesis
    unfolding e scenario_def[symmetric] s
    using l by (simp add: scenario_match b MAX_ORDERS_PER_SIDE_def)
qed

text \<open>
  Claim C7 as stated fails: the value \<^verbatim>\<open>matchOrder(5)\<close> returns in the scenario is
  not a \<open>Matched\<close> record.
\<close>

theorem scenario_returns_counterexample:
  "fst (matchOrder 5
          (exec [AddOrder 1 5 10 (Fin 50), AddOrder 1 5 10 (Fin 40), AddOrder 0 5 10 (Fin 60)] orderBooks)) \<noteq>
     Some (Matched \<lparr>m_ticker = 5, buyPrice = Fin 60, sellPrice = Fin 40, m_quantity = 10\<rparr>)"
  by (simp add: matchOrder_returns_None)

subsection \<open>Sequences of calls\<close>

text \<open>
  Claim C8. Every sequence of \<^verbatim>\<open>addOrder\<close> and \<^verbatim>\<open>matchOrder\<close> calls keeps the order-book
  invariant, from the initial state and from any state that satisfies it. For each side
  of each book: the counter stays within the capacity and does not decrease, the slots
  below the counter hold an order and the slots from the counter on hold none, and an
  order that was in a slot is still there with the same order type, ticker, quantity
  and price (only \<open>active\<close> may differ, and only from true to false).
\<close>

theorem run_preserves_invariant:
  assumes "books_inv books" "k < nat MAX_TICKERS"
  shows "books_inv (exec cs orderBooks)
         \<and> books_inv (exec cs books)
         \<and> (let b = books ! k; b' = exec cs books ! k in
              \<forall>sd. side_count sd b' \<le> MAX_ORDERS_PER_SIDE
                 \<and> side_count sd b \<le> side_count sd b'
                 \<and> length (side_slots sd b') = MAX_ORDERS_PER_SIDE
                 \<and> (\<forall>i<side_count sd b'. side_slots sd b' ! i \<noteq> None)
                 \<and> (\<forall>i. side_count sd b' \<le> i \<and> i < MAX_ORDERS_PER_SIDE
                        \<longrightarrow> side_slots sd b' ! i = None)
                 \<and> (\<forall>i<MAX_ORDERS_PER_SIDE. \<forall>ord. side_slots sd b ! i = Some ord \<longrightarrow>
                       (\<exists>ord'. side_slots sd b' ! i = Some ord'
                          \<and> order_type ord' = order_type ord \<and> ticker ord' = ticker ord
                          \<and> quantity ord' = quantity ord \<and> price ord' = price ord
                          \<and> (active ord' \<longrightarrow> active ord))))"
proof -
  let ?s = "exec cs books"
  have i0: "books_inv (exec cs orderBooks)"
    using exec_inv_ext[OF books_inv_orderBooks] by simp
  have i1: "books_inv ?s" and e1: "books_ext books ?s"
    using exec_inv_ext[OF assms(1)] by simp_all
  have kl: "k < length books" using assms by (simp add: books_inv_def)
  have bi: "book_inv (books ! k)" using assms by (rule books_inv_nth)
  have bi': "book_inv (?s ! k)" using i1 assms(2) by (rule books_inv_nth)
  have be: "book_ext (books ! k) (?s ! k)" using e1 kl by (simp add: books_ext_def)
  have "\<forall>sd. side_count sd (?s ! k) \<le> MAX_ORDERS_PER_SIDE
                 \<and> side_count sd (books ! k) \<le> side_count sd (?s ! k)
                 \<and> length (side_slots sd (?s ! k)) = MAX_ORDERS_PER_SIDE
                 \<and> (\<forall>i<side_count sd (?s ! k). side_slots sd (?s ! k) ! i \<noteq> None)
                 \<and> (\<forall>i. side_count sd (?s ! k) \<le> i \<and> i < MAX_ORDERS_PER_SIDE
                        \<longrightarrow> side_slots sd (?s ! k) ! i = None)
                 \<and> (\<forall>i<MAX_ORDERS_PER_SIDE. \<forall>ord. side_slots sd (books ! k) ! i = Some ord \<longrightarrow>
                       (\<exists>ord'. side_slots sd (?s ! k) ! i = Some ord'
                          \<and> order_type ord' = order_type ord \<and> ticker ord' = ticker ord
                          \<and> quantity ord' = quantity ord \<and> price ord' = price ord
                          \<and> (active ord' \<longrightarrow> active ord)))"
  proof
    fix sd
    have a: "slots_inv (side_slots sd (?s ! k)) (side_count sd (?s ! k))"
      using bi' by (rule book_inv_side)
    have a0: "length (side_slots sd (books ! k)) = MAX_ORDERS_PER_SIDE"
      using book_inv_side[OF bi, of sd] by (simp add: slots_inv_def)
    have b: "slots_ext (side_slots sd (books ! k)) (side_count sd (books ! k))
               (side_slots sd (?s ! k)) (side_count sd (?s ! k))"
      using be by (rule book_ext_side)
    show "side_count sd (?s ! k) \<le> MAX_ORDERS_PER_SIDE
                 \<and> side_count sd (books ! k) \<le> side_count sd (?s ! k)
                 \<and> length (side_slots sd (?s ! k)) = MAX_ORDERS_PER_SIDE
                 \<and> (\<forall>i<side_count sd (?s ! k). side_slots sd (?s ! k) ! i \<noteq> None)
                 \<and> (\<forall>i. side_count sd (?s ! k) \<le> i \<and> i < MAX_ORDERS_PER_SIDE
                        \<longrightarrow> side_slots sd (?s ! k) ! i = None)
                 \<and> (\<forall>i<MAX_ORDERS_PER_SIDE. \<forall>ord. side_slots sd (books ! k) ! i = Some ord \<longrightarrow>
                       (\<exists>ord'. side_slots sd (?s ! k) ! i = Some ord'
                          \<and> order_type ord' = order_type ord \<and> ticker ord' = ticker ord
                          \<and> quantity ord' = quantity ord \<and> price ord' = price ord
                          \<and> (active ord' \<longrightarrow> active ord)))"
      using a b a0 unfolding slots_inv_nth slots_ext_def order_frozen_def by simp
  qed
  then show ?thesis using i0 i1 by (simp add: Let_def)
qed

theorem run_preserves_invariant_witness:
  "books_inv scenario \<and> (5::nat) < nat MAX_TICKERS
   \<and> books_inv (exec [MatchOrder 5, AddOrder 0 5 1 (Fin 1)] orderBooks)
   \<and> books_inv (exec [MatchOrder 5, AddOrder 0 5 1 (Fin 1)] scenario)
   \<and> sell_count (scenario ! 5) \<le> sell_count (exec [MatchOrder 5, AddOrder 0 5 1 (Fin 1)] scenario ! 5)
   \<and> (\<exists>ord'. sell_orders (exec [MatchOrder 5, AddOrder 0 5 1 (Fin 1)] scenario ! 5) ! 1 = Some ord'
         \<and> quantity ord' = 10 \<and> price ord' = Fin 40)"
proof -
  have k: "(5::nat) < nat MAX_TICKERS" by (simp add: MAX_TICKERS_def)
  have o: "sell_orders (scenario ! 5) ! 1 =
             Some \<lparr>active = True, order_type = 1, ticker = 5, quantity = 10, price = Fin 40\<rparr>"
    by (simp add: scenario_5 MAX_ORDERS_PER_SIDE_def)
  have m: "(1::nat) < MAX_ORDERS_PER_SIDE" by (simp add: MAX_ORDERS_PER_SIDE_def)
  note r = run_preserves_invariant [OF scenario_inv k, of "[MatchOrder 5, AddOrder 0 5 1 (Fin 1)]"]
  from r have a: "books_inv (exec [MatchOrder 5, AddOrder 0 5 1 (Fin 1)] orderBooks)"
    and b: "books_inv (exec [MatchOrder 5, AddOrder 0 5 1 (Fin 1)] scenario)" by simp_all
  from r have c: "side_count Sell (scenario ! 5)
                    \<le> side_count Sell (exec [MatchOrder 5, AddOrder 0 5 1 (Fin 1)] scenario ! 5)"
    unfolding Let_def by blast
  from r have "\<forall>i<MAX_ORDERS_PER_SIDE. \<forall>ord. side_slots Sell (scenario ! 5) ! i = Some ord \<longrightarrow>
                 (\<exists>ord'. side_slots Sell (exec [MatchOrder 5, AddOrder 0 5 1 (Fin 1)] scenario ! 5) ! i
                           = Some ord'
                    \<and> order_type ord' = order_type ord \<and> ticker ord' = ticker ord
                    \<and> quantity ord' = quantity ord \<and> price ord' = price ord
                    \<and> (active ord' \<longrightarrow> active ord))"
    unfolding Let_def by blast
  with m o have d: "\<exists>ord'. sell_orders (exec [MatchOrder 5, AddOrder 0 5 1 (Fin 1)] scenario ! 5) ! 1
                        = Some ord' \<and> quantity ord' = 10 \<and> price ord' = Fin 40"
    by fastforce
  show ?thesis using scenario_inv k a b c d by simp
qed

text \<open>
  Claim C6. Once the order in a slot has \<open>active = False\<close>, it keeps it: after any
  further sequence of \<^verbatim>\<open>addOrder\<close> and \<^verbatim>\<open>matchOrder\<close> calls the slot holds the same order
  (same order type, ticker, quantity and price), still not active. No later
  \<^verbatim>\<open>matchOrder\<close> call selects it: the first loop never ends on its index when it is a
  sell order, and the pair of indices of a printed match never contains it, as buy or
  as sell.
\<close>

theorem matched_order_never_selected:
  assumes "books_inv books" "k < nat MAX_TICKERS" "i < MAX_ORDERS_PER_SIDE"
    and "side_slots sd (books ! k) ! i = Some ord" "\<not> active ord"
  shows "\<exists>ord'. side_slots sd (exec cs books ! k) ! i = Some ord'
           \<and> \<not> active ord'
           \<and> order_type ord' = order_type ord \<and> ticker ord' = ticker ord
           \<and> quantity ord' = quantity ord \<and> price ord' = price ord
           \<and> (sd = Sell \<longrightarrow> snd (lowest_sell (exec cs books ! k)) \<noteq> int i)
           \<and> (\<forall>t j i'. nat t = k \<and> matched_pair t (exec cs books) = Some (j, i') \<longrightarrow>
                 (sd = Buy \<longrightarrow> j \<noteq> i) \<and> (sd = Sell \<longrightarrow> i' \<noteq> i))"
proof -
  let ?s = "exec cs books"
  have e1: "books_ext books ?s" using exec_inv_ext[OF assms(1)] by simp
  have kl: "k < length books" using assms by (simp add: books_inv_def)
  have bi: "book_inv (books ! k)" using assms(1,2) by (rule books_inv_nth)
  have il: "i < length (side_slots sd (books ! k))"
    using book_inv_side[OF bi, of sd] assms(3) by (simp add: slots_inv_def)
  have "slots_ext (side_slots sd (books ! k)) (side_count sd (books ! k))
          (side_slots sd (?s ! k)) (side_count sd (?s ! k))"
    using e1 kl by (simp add: books_ext_def book_ext_side)
  with il assms(4) obtain ord' where o': "side_slots sd (?s ! k) ! i = Some ord'"
    and fr: "order_frozen ord ord'" unfolding slots_ext_def by blast
  have na: "\<not> active ord'" using fr assms(5) by (simp add: order_frozen_def)
  have sell: "sd = Sell \<longrightarrow> snd (lowest_sell (?s ! k)) \<noteq> int i"
  proof (intro impI notI)
    assume "sd = Sell" and "snd (lowest_sell (?s ! k)) = int i"
    then have "is_active (sell_orders (?s ! k) ! i)" by (simp add: lowest_sell_index_active)
    with \<open>sd = Sell\<close> o' na show False by (simp add: is_active_def)
  qed
  have pair: "\<forall>t j i'. nat t = k \<and> matched_pair t ?s = Some (j, i') \<longrightarrow>
                 (sd = Buy \<longrightarrow> j \<noteq> i) \<and> (sd = Sell \<longrightarrow> i' \<noteq> i)"
  proof (intro allI impI)
    fix t j i' assume h: "nat t = k \<and> matched_pair t ?s = Some (j, i')"
    from matched_pair_SomeD[of t ?s j i'] h
    obtain so bo where la: "lowest_active (sell_orders (?s ! k)) (sell_count (?s ! k)) i' so"
      and fe: "first_eligible (price so) (buy_orders (?s ! k)) (buy_count (?s ! k)) j bo"
      by auto
    show "(sd = Buy \<longrightarrow> j \<noteq> i) \<and> (sd = Sell \<longrightarrow> i' \<noteq> i)"
      using la fe o' na by (auto simp: lowest_active_def first_eligible_def)
  qed
  show ?thesis using o' na fr sell pair by (auto simp: order_frozen_def)
qed

theorem matched_order_never_selected_witness:
  "books_inv (step (MatchOrder 5) scenario) \<and> (5::nat) < nat MAX_TICKERS
   \<and> (1::nat) < MAX_ORDERS_PER_SIDE
   \<and> side_slots Sell (step (MatchOrder 5) scenario ! 5) ! 1 =
        Some \<lparr>active = False, order_type = 1, ticker = 5, quantity = 10, price = Fin 40\<rparr>
   \<and> \<not> active \<lparr>active = False, order_type = 1, ticker = 5, quantity = 10, price = Fin 40\<rparr>
   \<and> (\<exists>ord'. side_slots Sell
                (exec [AddOrder 0 5 10 (Fin 70), MatchOrder 5] (step (MatchOrder 5) scenario) ! 5) ! 1
                = Some ord'
          \<and> \<not> active ord' \<and> price ord' = Fin 40
          \<and> snd (lowest_sell
                   (exec [AddOrder 0 5 10 (Fin 70), MatchOrder 5] (step (MatchOrder 5) scenario) ! 5))
              \<noteq> int 1)"
proof -
  have inv: "books_inv (step (MatchOrder 5) scenario)"
    using step_inv_ext[OF scenario_inv, of "MatchOrder 5"] by simp
  have k: "(5::nat) < nat MAX_TICKERS" by (simp add: MAX_TICKERS_def)
  have m: "(1::nat) < MAX_ORDERS_PER_SIDE" by (simp add: MAX_ORDERS_PER_SIDE_def)
  have o: "side_slots Sell (step (MatchOrder 5) scenario ! 5) ! 1 =
             Some \<lparr>active = False, order_type = 1, ticker = 5, quantity = 10, price = Fin 40\<rparr>"
    by (simp only: side_slots.simps scenario_after_match) (simp add: MAX_ORDERS_PER_SIDE_def)
  have n: "\<not> active \<lparr>active = False, order_type = 1, ticker = 5, quantity = 10, price = Fin 40\<rparr>"
    by simp
  from matched_order_never_selected [OF inv k m o n, of "[AddOrder 0 5 10 (Fin 70), MatchOrder 5]"]
  have "\<exists>ord'. side_slots Sell
                (exec [AddOrder 0 5 10 (Fin 70), MatchOrder 5] (step (MatchOrder 5) scenario) ! 5) ! 1
                = Some ord'
          \<and> \<not> active ord' \<and> price ord' = Fin 40
          \<and> snd (lowest_sell
                   (exec [AddOrder 0 5 10 (Fin 70), MatchOrder 5] (step (MatchOrder 5) scenario) ! 5))
              \<noteq> int 1"
    by auto
  then show ?thesis using inv k m o n by blast
qed

subsection \<open>A full side\<close>

text \<open>
  Claim C4, as the code has it. Start from the initial state and run any sequence of
  calls in which exactly \<^verbatim>\<open>MAX_ORDERS_PER_SIDE\<close> insertions on one side of one ticker
  succeed. The next \<^verbatim>\<open>addOrder\<close> for that ticker and side changes nothing at all, and
  hands back \<^verbatim>\<open>None\<close> as every call does; no \<open>OrderBookFull\<close> value is returned.
\<close>

theorem full_side_insertion_dropped:
  assumes "0 \<le> t" "t < MAX_TICKERS"
    and "insertions (nat t) (side_of ot) cs orderBooks = MAX_ORDERS_PER_SIDE"
  shows "addOrder ot t q p (exec cs orderBooks) = (None, exec cs orderBooks)"
proof -
  have k: "nat t < nat MAX_TICKERS" using assms by simp
  have "side_count (side_of ot) (exec cs orderBooks ! nat t) = MAX_ORDERS_PER_SIDE"
    using exec_count[OF books_inv_orderBooks k, of "side_of ot" cs] assms(3)
    by (simp add: orderBooks_count[OF k])
  then show ?thesis by (simp add: addOrder_full_eq)
qed

theorem full_side_insertion_dropped_witness:
  "(0::int) \<le> 5 \<and> 5 < MAX_TICKERS
   \<and> insertions (nat 5) (side_of 0) (replicate MAX_ORDERS_PER_SIDE (AddOrder 0 5 10 (Fin 1))) orderBooks
       = MAX_ORDERS_PER_SIDE
   \<and> addOrder 0 5 10 (Fin 1) (exec (replicate MAX_ORDERS_PER_SIDE (AddOrder 0 5 10 (Fin 1))) orderBooks) =
       (None, exec (replicate MAX_ORDERS_PER_SIDE (AddOrder 0 5 10 (Fin 1))) orderBooks)"
proof -
  have h: "(0::int) \<le> 5" "5 < MAX_TICKERS" by (simp_all add: MAX_TICKERS_def)
  show ?thesis
    using full_side_insertion_dropped [OF h full_buy_side_insertions, of 10 "Fin 1"]
      h full_buy_side_insertions
    by blast
qed

text \<open>
  Claim C4 as stated fails after \<^verbatim>\<open>MAX_ORDERS_PER_SIDE\<close> buy orders for ticker 5: the
  next \<^verbatim>\<open>addOrder\<close> does not return \<open>OrderBookFull\<close>.
\<close>

theorem full_side_returns_counterexample:
  "insertions 5 Buy (replicate MAX_ORDERS_PER_SIDE (AddOrder 0 5 10 (Fin 1))) orderBooks
     = MAX_ORDERS_PER_SIDE
   \<and> fst (addOrder 0 5 10 (Fin 1) (exec (replicate MAX_ORDERS_PER_SIDE (AddOrder 0 5 10 (Fin 1))) orderBooks))
       \<noteq> Some OrderBookFull"
proof -
  have "insertions 5 Buy (replicate MAX_ORDERS_PER_SIDE (AddOrder 0 5 10 (Fin 1))) orderBooks
          = MAX_ORDERS_PER_SIDE"
    using full_buy_side_insertions by (simp add: side_of_def)
  then show ?thesis by (simp add: addOrder_returns_None)
qed

subsection \<open>Concurrent insertion\<close>

text \<open>
  Claim C9 does not hold of the code. Two threads call \<^verbatim>\<open>addOrder(0, 5, 10, 1.0)\<close> and
  \<^verbatim>\<open>addOrder(0, 5, 20, 2.0)\<close> on the initial state. The first reads the index 0 and is
  suspended; the second runs to its end (index 0, slot 0, counter 1); the first then
  writes its order into slot 0 and sets the counter to 2. Both calls have returned, the
  counter is 2, slot 0 holds the first thread's order, slot 1 is empty, the second
  thread's order is in no slot, and the order-book invariant is broken.
\<close>

theorem concurrent_insertion_lost:
  "(let (ths, books) =
          interleave [0, 1, 1, 1, 0, 0] [add_call 0 5 10 (Fin 1), add_call 0 5 20 (Fin 2)] orderBooks
    in map th_pc ths = [AtEnd, AtEnd]
       \<and> buy_count (books ! 5) = 2
       \<and> buy_orders (books ! 5) ! 0 =
           Some \<lparr>active = True, order_type = 0, ticker = 5, quantity = 10, price = Fin 1\<rparr>
       \<and> buy_orders (books ! 5) ! 1 = None
       \<and> Some \<lparr>active = True, order_type = 0, ticker = 5, quantity = 20, price = Fin 2\<rparr>
           \<notin> set (buy_orders (books ! 5))
       \<and> \<not> books_inv books)"
proof -
  let ?b = "OrderBook
        \<lparr>buy_orders := (replicate MAX_ORDERS_PER_SIDE None)
           [0 := Some \<lparr>active = True, order_type = 0, ticker = 5, quantity = 10, price = Fin 1\<rparr>],
         buy_count := 2\<rparr>"
  have n: "orderBooks[5 := ?b] ! 5 = ?b"
    by (simp add: orderBooks_def MAX_TICKERS_def)
  have s1: "buy_orders ?b ! 1 = None" "buy_count ?b = 2"
    "buy_orders ?b ! 0 =
       Some \<lparr>active = True, order_type = 0, ticker = 5, quantity = 10, price = Fin 1\<rparr>"
    by (simp_all add: MAX_ORDERS_PER_SIDE_def)
  have notin: "Some \<lparr>active = True, order_type = 0, ticker = 5, quantity = 20, price = Fin 2\<rparr>
                 \<notin> set (buy_orders ?b)"
    by (auto simp: in_set_conv_nth nth_list_update)
  have "\<not> slots_inv (buy_orders ?b) (buy_count ?b)"
  proof
    assume "slots_inv (buy_orders ?b) (buy_count ?b)"
    then have "\<forall>i<buy_count ?b. buy_orders ?b ! i \<noteq> None"
      unfolding slots_inv_nth by blast
    moreover have "1 < buy_count ?b" by simp
    ultimately have "buy_orders ?b ! 1 \<noteq> None" by blast
    with s1(1) show False by blast
  qed
  then have "\<not> book_inv ?b" by (simp add: book_inv_def)
  then have "\<not> book_inv (orderBooks[5 := ?b] ! 5)" unfolding n .
  moreover have "(5::nat) < nat MAX_TICKERS" by (simp add: MAX_TICKERS_def)
  ultimately have ninv: "\<not> books_inv (orderBooks[5 := ?b])"
    using books_inv_nth by blast
  show ?thesis
    unfolding lost_schedule using n s1 notin ninv by (simp add: add_call_def)
qed

end
